theory Spec2Isabelle
  imports Complex_Main "HOL-Library.Multiset"
begin

section \<open>Numeric values\<close>

text \<open>
  The arrays of the detector hold IEEE doubles. A value is a real or one of the three special
  values the code tests for or produces (\<open>np.inf\<close>, \<open>-np.inf\<close>, \<open>nan\<close>). The operations
  below are exact on the reals: they are the arithmetic before rounding. The section on float64
  arithmetic rounds a result to the nearest double, with underflow and overflow. The sign of
  zero is not modelled.
\<close>

datatype npfloat = Fin real | PInf | NInf | NaN

instantiation npfloat :: "{zero, one, plus, uminus, minus, times, inverse}"
begin

definition zero_npfloat :: npfloat where
  "zero_npfloat = Fin 0"

definition one_npfloat :: npfloat where
  "one_npfloat = Fin 1"

fun plus_npfloat :: "npfloat \<Rightarrow> npfloat \<Rightarrow> npfloat" where
  "plus_npfloat NaN _ = NaN"
| "plus_npfloat _ NaN = NaN"
| "plus_npfloat PInf NInf = NaN"
| "plus_npfloat NInf PInf = NaN"
| "plus_npfloat PInf _ = PInf"
| "plus_npfloat _ PInf = PInf"
| "plus_npfloat NInf _ = NInf"
| "plus_npfloat _ NInf = NInf"
| "plus_npfloat (Fin a) (Fin b) = Fin (a + b)"

fun uminus_npfloat :: "npfloat \<Rightarrow> npfloat" where
  "uminus_npfloat (Fin a) = Fin (- a)"
| "uminus_npfloat PInf = NInf"
| "uminus_npfloat NInf = PInf"
| "uminus_npfloat NaN = NaN"

definition minus_npfloat :: "npfloat \<Rightarrow> npfloat \<Rightarrow> npfloat" where
  "minus_npfloat (a :: npfloat) b = a + (- b)"

fun times_npfloat :: "npfloat \<Rightarrow> npfloat \<Rightarrow> npfloat" where
  "times_npfloat NaN _ = NaN"
| "times_npfloat _ NaN = NaN"
| "times_npfloat (Fin a) (Fin b) = Fin (a * b)"
| "times_npfloat (Fin a) PInf = (if a = 0 then NaN else if 0 < a then PInf else NInf)"
| "times_npfloat (Fin a) NInf = (if a = 0 then NaN else if 0 < a then NInf else PInf)"
| "times_npfloat PInf (Fin b) = (if b = 0 then NaN else if 0 < b then PInf else NInf)"
| "times_npfloat NInf (Fin b) = (if b = 0 then NaN else if 0 < b then NInf else PInf)"
| "times_npfloat PInf PInf = PInf"
| "times_npfloat PInf NInf = NInf"
| "times_npfloat NInf PInf = NInf"
| "times_npfloat NInf NInf = PInf"

fun divide_npfloat :: "npfloat \<Rightarrow> npfloat \<Rightarrow> npfloat" where
  "divide_npfloat NaN _ = NaN"
| "divide_npfloat _ NaN = NaN"
| "divide_npfloat (Fin a) (Fin b) =
     (if b \<noteq> 0 then Fin (a / b)
      else if a = 0 then NaN else if 0 < a then PInf else NInf)"
| "divide_npfloat (Fin a) PInf = Fin 0"
| "divide_npfloat (Fin a) NInf = Fin 0"
| "divide_npfloat PInf (Fin b) = (if 0 \<le> b then PInf else NInf)"
| "divide_npfloat NInf (Fin b) = (if 0 \<le> b then NInf else PInf)"
| "divide_npfloat PInf _ = NaN"
| "divide_npfloat NInf _ = NaN"

fun inverse_npfloat :: "npfloat \<Rightarrow> npfloat" where
  "inverse_npfloat (Fin a) = (if a = 0 then PInf else Fin (inverse a))"
| "inverse_npfloat PInf = Fin 0"
| "inverse_npfloat NInf = Fin 0"
| "inverse_npfloat NaN = NaN"

instance ..

end

text \<open>Sums and products of arrays do not depend on the order of the entries: with the
  special values, addition and multiplication are still associative and commutative.\<close>

lemma npfloat_add_assoc: "x + y + z = x + (y + z)" for x y z :: npfloat
  by (cases x; cases y; cases z; simp)

lemma npfloat_add_commute: "x + y = y + x" for x y :: npfloat
  by (cases x; cases y; simp)

lemma npfloat_add_zero: "0 + x = x" for x :: npfloat
  unfolding zero_npfloat_def by (cases x; simp)

lemma npfloat_mult_assoc: "x * y * z = x * (y * z)" for x y z :: npfloat
  by (cases x; cases y; cases z; auto simp: zero_less_mult_iff mult_less_0_iff)

lemma npfloat_mult_commute: "x * y = y * x" for x y :: npfloat
  by (cases x; cases y; simp add: mult.commute)

lemma npfloat_mult_one: "1 * x = x" for x :: npfloat
  unfolding one_npfloat_def by (cases x; simp)

instance npfloat :: comm_monoid_add
  by standard (fact npfloat_add_assoc npfloat_add_commute npfloat_add_zero)+

instance npfloat :: comm_monoid_mult
  by standard (fact npfloat_mult_assoc npfloat_mult_commute npfloat_mult_one)+

text \<open>The elementwise functions of numpy the detector uses, at the special values.\<close>

fun fexp :: "npfloat \<Rightarrow> npfloat" where
  "fexp (Fin a) = Fin (exp a)"
| "fexp PInf = PInf"
| "fexp NInf = Fin 0"
| "fexp NaN = NaN"

fun flog :: "npfloat \<Rightarrow> npfloat" where
  "flog (Fin a) = (if 0 < a then Fin (ln a) else if a = 0 then NInf else NaN)"
| "flog PInf = PInf"
| "flog NInf = NaN"
| "flog NaN = NaN"

fun fsqrt :: "npfloat \<Rightarrow> npfloat" where
  "fsqrt (Fin a) = (if 0 \<le> a then Fin (sqrt a) else NaN)"
| "fsqrt PInf = PInf"
| "fsqrt NInf = NaN"
| "fsqrt NaN = NaN"

fun fabs :: "npfloat \<Rightarrow> npfloat" where
  "fabs (Fin a) = Fin \<bar>a\<bar>"
| "fabs PInf = PInf"
| "fabs NInf = PInf"
| "fabs NaN = NaN"

fun isnan :: "npfloat \<Rightarrow> bool" where
  "isnan NaN = True"
| "isnan _ = False"

fun isfinite :: "npfloat \<Rightarrow> bool" where
  "isfinite (Fin a) = True"
| "isfinite _ = False"

text \<open>Comparisons: every comparison with a nan is false.\<close>

fun fgt :: "npfloat \<Rightarrow> npfloat \<Rightarrow> bool" where
  "fgt NaN _ = False"
| "fgt _ NaN = False"
| "fgt (Fin a) (Fin b) = (b < a)"
| "fgt PInf PInf = False"
| "fgt PInf _ = True"
| "fgt _ PInf = False"
| "fgt NInf _ = False"
| "fgt _ NInf = True"

fun feq :: "npfloat \<Rightarrow> npfloat \<Rightarrow> bool" where
  "feq NaN _ = False"
| "feq _ NaN = False"
| "feq a b = (a = b)"

section \<open>Arrays\<close>

type_synonym vector = "npfloat list"
type_synonym matrix = "npfloat list list"

text \<open>A two-dimensional array is the list of its rows; \<open>rect n d X\<close> says that it is one
  of shape \<open>(n, d)\<close>. A list of empty rows does not record how many there were once it is
  transposed, so an array with rows and no column is not represented; the detector holds none,
  the validation of the input asks for one column at least.\<close>

definition rect :: "nat \<Rightarrow> nat \<Rightarrow> 'a list list \<Rightarrow> bool" where
  "rect n d X = (length X = n \<and> (\<forall>r \<in> set X. length r = d))"

definition ncols :: "matrix \<Rightarrow> nat" where
  "ncols X = (case X of [] \<Rightarrow> 0 | r # _ \<Rightarrow> length r)"

definition shape :: "matrix \<Rightarrow> nat \<times> nat" where
  "shape X = (length X, ncols X)"

text \<open>\<open>X.T\<close>\<close>

definition transpose_m :: "matrix \<Rightarrow> matrix" where
  "transpose_m X = map (\<lambda>j. map (\<lambda>r. r ! j) X) [0..<ncols X]"

text \<open>\<open>np.dot(A, B)\<close>\<close>

definition dot :: "matrix \<Rightarrow> matrix \<Rightarrow> matrix" where
  "dot A B = map (\<lambda>r. map (\<lambda>j. sum_list (map2 times r (map (\<lambda>b. b ! j) B))) [0..<ncols B]) A"

text \<open>\<open>np.square(X)\<close>, \<open>np.sum(X, 1)\<close>, \<open>c * X\<close>, and \<open>np.add(M, v)\<close>, which adds the
  vector \<open>v\<close> to every row of \<open>M\<close>.\<close>

definition square :: "matrix \<Rightarrow> matrix" where
  "square X = map (map (\<lambda>x. x * x)) X"

definition sum_axis1 :: "matrix \<Rightarrow> vector" where
  "sum_axis1 X = map sum_list X"

definition scale :: "npfloat \<Rightarrow> matrix \<Rightarrow> matrix" where
  "scale c X = map (map (\<lambda>x. c * x)) X"

definition add_rows :: "matrix \<Rightarrow> vector \<Rightarrow> matrix" where
  "add_rows M v = map (\<lambda>r. map2 plus r v) M"

text \<open>\<open>np.prod(M, 0)\<close>: the product of every column.\<close>

definition prod_axis0 :: "matrix \<Rightarrow> vector" where
  "prod_axis0 M = map (\<lambda>j. prod_list (map (\<lambda>r. r ! j) M)) [0..<ncols M]"

section \<open>The detector\<close>

datatype error =
    ShapeError
  | ValidationError
  | NotFittedError
  | IndexError
  | ImportError
  | MetricError string

text \<open>\<open>str.lower\<close>, on the ASCII letters.\<close>

definition lower_char :: "char \<Rightarrow> char" where
  "lower_char c = (let k = (of_char c :: nat) in if 65 \<le> k \<and> k \<le> 90 then char_of (k + 32) else c)"

definition lower :: "string \<Rightarrow> string" where
  "lower s = map lower_char s"

record SOS =
  contamination :: real
  perplexity :: npfloat
  metric :: string
  eps :: npfloat

text \<open>\<open>SOS.__init__\<close>. The constructor of the base class, which stores the contamination,
  is not part of the source at hand.\<close>

definition SOS_init :: "real \<Rightarrow> npfloat \<Rightarrow> string \<Rightarrow> npfloat \<Rightarrow> SOS" where
  "SOS_init c p m e = \<lparr>contamination = c, perplexity = p, metric = lower m, eps = e\<rparr>"

text \<open>\<open>scipy.spatial.distance\<close>, when it can be imported: the function is
  \<open>\<lambda>m X. distance.squareform(distance.pdist(X, m))\<close>. It is a parameter of the model.\<close>

type_synonym scipy = "(string \<Rightarrow> matrix \<Rightarrow> error + matrix) option"

text \<open>\<open>SOS._x2d\<close>\<close>

definition x2d :: "scipy \<Rightarrow> SOS \<Rightarrow> matrix \<Rightarrow> error + matrix" where
  "x2d scipy self X =
     (let (n, d) = shape X in
      if metric self = ''none'' then
        (if n \<noteq> d then Inl ShapeError else Inr X)
      else if metric self = ''euclidean'' then
        (let sumX = sum_axis1 (square X) in
         Inr (map (map (\<lambda>v. fsqrt (fabs v)))
               (add_rows (transpose_m (add_rows (scale (Fin (- 2)) (dot X (transpose_m X))) sumX)) sumX)))
      else
        (case scipy of
           None \<Rightarrow> Inl ImportError
         | Some pdist \<Rightarrow> pdist (metric self) X))"

text \<open>\<open>_get_perplexity\<close>\<close>

definition get_perplexity :: "vector \<Rightarrow> npfloat \<Rightarrow> npfloat \<times> vector" where
  "get_perplexity D b =
     (let A = map (\<lambda>d. fexp (- d * b)) D;
          sumA = sum_list A;
          H = flog sumA + b * sum_list (map2 times D A) / sumA
      in (H, A))"

text \<open>The variables of the \<open>while\<close> loop of \<open>_d2a\<close>, for one row.\<close>

record calib =
  beta :: npfloat
  betamin :: npfloat
  betamax :: npfloat
  thisA :: vector
  Hdiff :: npfloat
  tries :: nat

definition calib_init :: "vector \<Rightarrow> npfloat \<Rightarrow> calib" where
  "calib_init Di logU =
     (let (H, A) = get_perplexity Di (Fin 1)
      in \<lparr>beta = Fin 1, betamin = NInf, betamax = PInf, thisA = A, Hdiff = H - logU, tries = 0\<rparr>)"

definition loop_cond :: "npfloat \<Rightarrow> calib \<Rightarrow> bool" where
  "loop_cond e st = ((isnan (Hdiff st) \<or> fgt (fabs (Hdiff st)) e) \<and> tries st < 5000)"

definition loop_body :: "vector \<Rightarrow> npfloat \<Rightarrow> calib \<Rightarrow> calib" where
  "loop_body Di logU st =
     (let (b, bmin, bmax) =
        (if isnan (Hdiff st) then
           (beta st / Fin 10, betamin st, betamax st)
         else if fgt (Hdiff st) (Fin 0) then
           (if feq (betamax st) PInf \<or> feq (betamax st) NInf
            then beta st * Fin 2
            else (beta st + betamax st) / Fin 2,
            beta st, betamax st)
         else
           (if feq (betamin st) PInf \<or> feq (betamin st) NInf
            then beta st / Fin 2
            else (beta st + betamin st) / Fin 2,
            betamin st, beta st));
        (H, A) = get_perplexity Di b
      in \<lparr>beta = b, betamin = bmin, betamax = bmax, thisA = A, Hdiff = H - logU,
          tries = tries st + 1\<rparr>)"

function calibrate_loop :: "vector \<Rightarrow> npfloat \<Rightarrow> npfloat \<Rightarrow> calib \<Rightarrow> calib" where
  "calibrate_loop Di logU e st =
     (if loop_cond e st then calibrate_loop Di logU e (loop_body Di logU st) else st)"
  by pat_completeness auto
termination
  by (relation "measure (\<lambda>(Di, logU, e, st). 5000 - tries st)")
     (auto simp: loop_cond_def loop_body_def Let_def split: prod.splits)

declare calibrate_loop.simps [simp del]

definition calibrate :: "vector \<Rightarrow> npfloat \<Rightarrow> npfloat \<Rightarrow> calib" where
  "calibrate Di logU e = calibrate_loop Di logU e (calib_init Di logU)"

text \<open>The index array \<open>np.concatenate((np.r_[0:i], np.r_[i + 1:n]))\<close>, reading a row at an
  index array (an index out of range raises), and assigning to a row at an index array.\<close>

definition offdiag :: "nat \<Rightarrow> nat \<Rightarrow> nat list" where
  "offdiag i n = [0..<i] @ [Suc i..<n]"

definition take_idx :: "'a list \<Rightarrow> nat list \<Rightarrow> error + 'a list" where
  "take_idx r idx = (if \<forall>k \<in> set idx. k < length r then Inr (map (\<lambda>k. r ! k) idx) else Inl IndexError)"

definition put_idx :: "'a list \<Rightarrow> nat list \<Rightarrow> 'a list \<Rightarrow> 'a list" where
  "put_idx r idx vs = fold (\<lambda>(k, v) r'. r'[k := v]) (zip idx vs) r"

fun collect :: "(error + 'a) list \<Rightarrow> error + 'a list" where
  "collect [] = Inr []"
| "collect (x # xs) =
     (case x of
        Inl e \<Rightarrow> Inl e
      | Inr v \<Rightarrow> (case collect xs of Inl e \<Rightarrow> Inl e | Inr vs \<Rightarrow> Inr (v # vs)))"

text \<open>One turn of the \<open>for\<close> loop of \<open>_d2a\<close>: row \<open>i\<close> of \<open>A\<close>.\<close>

definition d2a_row :: "SOS \<Rightarrow> matrix \<Rightarrow> nat \<Rightarrow> error + vector" where
  "d2a_row self D i =
     (let n = length D; logU = flog (perplexity self) in
      case take_idx (D ! i) (offdiag i n) of
        Inl e \<Rightarrow> Inl e
      | Inr Di \<Rightarrow>
          Inr (put_idx (replicate n (Fin 0)) (offdiag i n) (thisA (calibrate Di logU (eps self)))))"

text \<open>\<open>SOS._d2a\<close>\<close>

definition d2a :: "SOS \<Rightarrow> matrix \<Rightarrow> error + matrix" where
  "d2a self D = collect (map (d2a_row self D) [0..<length D])"

text \<open>\<open>SOS._a2b\<close>\<close>

definition a2b :: "matrix \<Rightarrow> matrix" where
  "a2b A = map (\<lambda>r. map (\<lambda>a. a / sum_list r) r) A"

text \<open>\<open>SOS._b2o\<close>\<close>

definition b2o :: "matrix \<Rightarrow> vector" where
  "b2o B = prod_axis0 (map (map (\<lambda>b. 1 - b)) B)"

text \<open>\<open>sklearn.utils.check_array\<close> with its default arguments, on a nested list of numbers:
  the array has two dimensions, at least one row and one column, and finite entries only.\<close>

definition check_array :: "matrix \<Rightarrow> error + matrix" where
  "check_array X =
     (if 1 \<le> length X \<and> 1 \<le> ncols X \<and> (\<forall>r \<in> set X. length r = ncols X)
         \<and> (\<forall>r \<in> set X. \<forall>x \<in> set r. isfinite x)
      then Inr X else Inl ValidationError)"

text \<open>The fitted state. The threshold and the labels are derived from the scores by
  \<open>_process_decision_scores\<close> of the base class, a parameter of the model.\<close>

record 'p fitted =
  decision_scores :: vector
  processed :: 'p

text \<open>The four stages, run by \<open>fit\<close> and by \<open>decision_function\<close>.\<close>

definition stages :: "scipy \<Rightarrow> SOS \<Rightarrow> matrix \<Rightarrow> error + vector" where
  "stages scipy self X =
     (case x2d scipy self X of
        Inl e \<Rightarrow> Inl e
      | Inr D \<Rightarrow>
          (case d2a self D of
             Inl e \<Rightarrow> Inl e
           | Inr A \<Rightarrow> Inr (b2o (a2b A))))"

text \<open>\<open>SOS.fit\<close>\<close>

definition fit :: "scipy \<Rightarrow> (real \<Rightarrow> vector \<Rightarrow> 'p) \<Rightarrow> SOS \<Rightarrow> matrix \<Rightarrow> error + 'p fitted" where
  "fit scipy process self X =
     (case check_array X of
        Inl e \<Rightarrow> Inl e
      | Inr X' \<Rightarrow>
          (case stages scipy self X' of
             Inl e \<Rightarrow> Inl e
           | Inr O' \<Rightarrow>
               Inr \<lparr>decision_scores = O', processed = process (contamination self) O'\<rparr>))"

text \<open>\<open>SOS.decision_function\<close>\<close>

definition decision_function :: "scipy \<Rightarrow> SOS \<Rightarrow> 'p fitted option \<Rightarrow> matrix \<Rightarrow> error + vector" where
  "decision_function scipy self state X =
     (case state of
        None \<Rightarrow> Inl NotFittedError
      | Some _ \<Rightarrow>
          (case check_array X of
             Inl e \<Rightarrow> Inl e
           | Inr X' \<Rightarrow> stages scipy self X'))"


section \<open>Notions for the statements\<close>

text \<open>The states of the \<open>while\<close> loop of one row: the state before the loop, and the state
  after every turn taken from a state where the loop's condition holds.\<close>

inductive reach :: "vector \<Rightarrow> npfloat \<Rightarrow> npfloat \<Rightarrow> calib \<Rightarrow> bool"
  for Di :: vector and logU :: npfloat and e :: npfloat where
  reach_init: "reach Di logU e (calib_init Di logU)"
| reach_step: "reach Di logU e st \<Longrightarrow> loop_cond e st \<Longrightarrow> reach Di logU e (loop_body Di logU st)"

code_pred reach .

text \<open>The bounds of the search: \<open>betamin\<close> and \<open>betamax\<close> are still infinite or hold an
  earlier, positive \<open>beta\<close>.\<close>

definition positive :: "npfloat \<Rightarrow> bool" where
  "positive x = (case x of Fin a \<Rightarrow> 0 < a | _ \<Rightarrow> False)"

definition bounds_inv :: "calib \<Rightarrow> bool" where
  "bounds_inv st =
     (positive (beta st)
      \<and> (betamin st = NInf \<or> positive (betamin st))
      \<and> (betamax st = PInf \<or> positive (betamax st)))"

text \<open>The row read by \<open>D[i, offdiag]\<close> in a square matrix, and row \<open>i\<close> of the result
  of \<open>_d2a\<close>.\<close>

definition row_of :: "matrix \<Rightarrow> nat \<Rightarrow> vector" where
  "row_of D i = map (\<lambda>k. D ! i ! k) (offdiag i (length D))"

definition affinity_row :: "SOS \<Rightarrow> matrix \<Rightarrow> nat \<Rightarrow> vector" where
  "affinity_row self D i =
     put_idx (replicate (length D) (Fin 0)) (offdiag i (length D))
       (thisA (calibrate (row_of D i) (flog (perplexity self)) (eps self)))"


text \<open>The real number a finite value stands for.\<close>

fun real_of :: "npfloat \<Rightarrow> real" where
  "real_of (Fin a) = a"
| "real_of _ = 0"

text \<open>Five equal points with perplexity 50: the rows of the dissimilarity matrix are zero, the
  entropy is \<open>ln 4\<close> for every precision, below \<open>ln 50\<close>, and every turn halves the
  precision. State \<open>k\<close> of this run:\<close>

definition halving_state :: "nat \<Rightarrow> calib" where
  "halving_state k =
     \<lparr>beta = Fin (1 / 2 ^ k), betamin = NInf,
      betamax = (if k = 0 then PInf else Fin (1 / 2 ^ (k - 1))),
      thisA = [Fin 1, Fin 1, Fin 1, Fin 1], Hdiff = Fin (ln 4 - ln 50), tries = k\<rparr>"

section \<open>Float64 arithmetic\<close>

text \<open>Rounding to the nearest integer, ties to the even one.\<close>

definition round_half_even :: "real \<Rightarrow> int" where
  "round_half_even y =
     (let f = \<lfloor>y\<rfloor>; t = y - of_int f
      in if t < 1 / 2 then f else if 1 / 2 < t then f + 1 else if even f then f else f + 1)"

text \<open>The distance between neighbouring doubles around \<open>x\<close>: 52 binary places below the
  leading bit, and \<open>2\<^sup>-\<^sup>1\<^sup>0\<^sup>7\<^sup>4\<close> in the subnormal range.\<close>

definition ulp64 :: "real \<Rightarrow> real" where
  "ulp64 x = 2 powr (of_int (max \<lfloor>log 2 \<bar>x\<bar>\<rfloor> (- 1022)) - 52)"

text \<open>The double nearest to a real, ties to even; beyond the largest double, an infinity.
  A float64 operation is the exact operation followed by this rounding; \<open>exp\<close> and
  \<open>log\<close> are taken correctly rounded too.\<close>

definition rnd64 :: "real \<Rightarrow> npfloat" where
  "rnd64 x =
     (if x = 0 then Fin 0
      else let r = of_int (round_half_even (x / ulp64 x)) * ulp64 x
           in if 2 ^ 1024 \<le> r then PInf else if r \<le> - (2 ^ 1024) then NInf else Fin r)"

fun r64 :: "npfloat \<Rightarrow> npfloat" where
  "r64 (Fin a) = rnd64 a"
| "r64 x = x"

text \<open>The calibration with the result of every arithmetic operation rounded by \<open>rd\<close>:
  \<open>rd = r64\<close> is float64 arithmetic, \<open>rd = (\<lambda>x. x)\<close> is the exact arithmetic of
  \<open>get_perplexity\<close>, \<open>loop_body\<close> and \<open>calibrate_loop\<close>. \<open>np.sum\<close> adds from the
  left, starting at 0.\<close>

definition sum_r :: "(npfloat \<Rightarrow> npfloat) \<Rightarrow> vector \<Rightarrow> npfloat" where
  "sum_r rd xs = foldl (\<lambda>s x. rd (s + x)) 0 xs"

definition get_perplexity_r :: "(npfloat \<Rightarrow> npfloat) \<Rightarrow> vector \<Rightarrow> npfloat \<Rightarrow> npfloat \<times> vector" where
  "get_perplexity_r rd D b =
     (let A = map (\<lambda>d. rd (fexp (rd (- d * b)))) D;
          sumA = sum_r rd A;
          H = rd (rd (flog sumA) + rd (rd (b * sum_r rd (map2 (\<lambda>d a. rd (d * a)) D A)) / sumA))
      in (H, A))"

definition calib_init_r :: "(npfloat \<Rightarrow> npfloat) \<Rightarrow> vector \<Rightarrow> npfloat \<Rightarrow> calib" where
  "calib_init_r rd Di logU =
     (let (H, A) = get_perplexity_r rd Di (Fin 1)
      in \<lparr>beta = Fin 1, betamin = NInf, betamax = PInf, thisA = A, Hdiff = rd (H - logU),
          tries = 0\<rparr>)"

definition loop_body_r :: "(npfloat \<Rightarrow> npfloat) \<Rightarrow> vector \<Rightarrow> npfloat \<Rightarrow> calib \<Rightarrow> calib" where
  "loop_body_r rd Di logU st =
     (let (b, bmin, bmax) =
        (if isnan (Hdiff st) then
           (rd (beta st / Fin 10), betamin st, betamax st)
         else if fgt (Hdiff st) (Fin 0) then
           (if feq (betamax st) PInf \<or> feq (betamax st) NInf
            then rd (beta st * Fin 2)
            else rd (rd (beta st + betamax st) / Fin 2),
            beta st, betamax st)
         else
           (if feq (betamin st) PInf \<or> feq (betamin st) NInf
            then rd (beta st / Fin 2)
            else rd (rd (beta st + betamin st) / Fin 2),
            betamin st, beta st));
        (H, A) = get_perplexity_r rd Di b
      in \<lparr>beta = b, betamin = bmin, betamax = bmax, thisA = A, Hdiff = rd (H - logU),
          tries = tries st + 1\<rparr>)"

function calibrate_loop_r ::
  "(npfloat \<Rightarrow> npfloat) \<Rightarrow> vector \<Rightarrow> npfloat \<Rightarrow> npfloat \<Rightarrow> calib \<Rightarrow> calib" where
  "calibrate_loop_r rd Di logU e st =
     (if loop_cond e st then calibrate_loop_r rd Di logU e (loop_body_r rd Di logU st) else st)"
  by pat_completeness auto
termination
  by (relation "measure (\<lambda>(rd, Di, logU, e, st). 5000 - tries st)")
     (auto simp: loop_cond_def loop_body_r_def Let_def split: prod.splits)

declare calibrate_loop_r.simps [simp del]

definition calibrate_r :: "(npfloat \<Rightarrow> npfloat) \<Rightarrow> vector \<Rightarrow> npfloat \<Rightarrow> npfloat \<Rightarrow> calib" where
  "calibrate_r rd Di logU e = calibrate_loop_r rd Di logU e (calib_init_r rd Di logU)"

inductive reach_r :: "(npfloat \<Rightarrow> npfloat) \<Rightarrow> vector \<Rightarrow> npfloat \<Rightarrow> npfloat \<Rightarrow> calib \<Rightarrow> bool"
  for rd :: "npfloat \<Rightarrow> npfloat" and Di :: vector and logU :: npfloat and e :: npfloat where
  reach_r_init: "reach_r rd Di logU e (calib_init_r rd Di logU)"
| reach_r_step:
    "reach_r rd Di logU e st \<Longrightarrow> loop_cond e st \<Longrightarrow> reach_r rd Di logU e (loop_body_r rd Di logU st)"

code_pred reach_r .

text \<open>A value that is not negative and not nan.\<close>

definition nonneg :: "npfloat \<Rightarrow> bool" where
  "nonneg x = (case x of Fin a \<Rightarrow> 0 \<le> a | PInf \<Rightarrow> True | _ \<Rightarrow> False)"

definition bounds_inv_r :: "calib \<Rightarrow> bool" where
  "bounds_inv_r st =
     (nonneg (beta st) \<and> (betamin st = NInf \<or> nonneg (betamin st)) \<and> nonneg (betamax st))"

text \<open>The default detector in float64: \<open>np.log(4.5)\<close> and the tolerance \<open>1e-5\<close>.\<close>

definition logU_default :: npfloat where
  "logU_default = r64 (flog (Fin (9 / 2)))"

definition eps_default :: npfloat where
  "eps_default = r64 (Fin (1 / 100000))"

text \<open>Two equal points with the default perplexity and tolerance, in float64: the row of
  dissimilarities is \<open>[0]\<close>, the entropy is 0 for every precision, below \<open>ln 4.5\<close>, and
  every turn halves the precision: \<open>2\<^sup>-\<^sup>k\<close> after \<open>k\<close> turns while this is a double,
  and 0 from turn 1075 on. State \<open>k\<close> of this run:\<close>

definition halved :: "nat \<Rightarrow> real" where
  "halved k = (if k \<le> 1074 then 1 / 2 ^ k else 0)"

definition underflow_state :: "nat \<Rightarrow> calib" where
  "underflow_state k =
     \<lparr>beta = Fin (halved k), betamin = NInf,
      betamax = (if k = 0 then PInf else Fin (halved (k - 1))),
      thisA = [Fin 1], Hdiff = r64 (Fin 0 - logU_default), tries = k\<rparr>"

section \<open>The metric name\<close>

lemma lower_char_idem: "lower_char (lower_char c) = lower_char c"
proof -
  have "of_char (char_of (of_char c + 32 :: nat)) = (of_char c + 32 :: nat)"
    if "(of_char c :: nat) \<le> 90"
    using that by (simp add: of_char_of)
  then show ?thesis
    by (auto simp: lower_char_def Let_def)
qed

lemma lower_idem: "lower (lower s) = lower s"
  by (simp add: lower_def lower_char_idem)

text \<open>
  C10. The constructor stores the metric name in lower case, so a detector built with any
  casing of a name is the detector built with the lower-case name: its dissimilarity matrix,
  its scores and its errors are the same. Two casings of \<open>euclidean\<close> are evaluated.
\<close>

theorem metric_name_case_insensitive:
  "SOS_init c p m e = SOS_init c p (lower m) e
   \<and> x2d scipy (SOS_init c p m e) X = x2d scipy (SOS_init c p (lower m) e) X
   \<and> fit scipy process (SOS_init c p m e) X = fit scipy process (SOS_init c p (lower m) e) X
   \<and> decision_function scipy (SOS_init c p m e) state X
       = decision_function scipy (SOS_init c p (lower m) e) state X
   \<and> metric (SOS_init c p ''Euclidean'' e) = ''euclidean''
   \<and> metric (SOS_init c p ''EUCLIDEAN'' e) = ''euclidean''"
proof -
  have "SOS_init c p m e = SOS_init c p (lower m) e"
    by (simp add: SOS_init_def lower_idem)
  moreover have "lower ''Euclidean'' = ''euclidean''" "lower ''EUCLIDEAN'' = ''euclidean''"
    by code_simp+
  then have "metric (SOS_init c p ''Euclidean'' e) = ''euclidean''"
    "metric (SOS_init c p ''EUCLIDEAN'' e) = ''euclidean''"
    by (simp_all add: SOS_init_def)
  ultimately show ?thesis by simp
qed

section \<open>The dissimilarity matrix\<close>

lemma x2d_metric_none:
  "metric self = ''none'' \<Longrightarrow>
   x2d scipy self X = (if length X \<noteq> ncols X then Inl ShapeError else Inr X)"
  by (simp add: x2d_def shape_def)

text \<open>
  C2, as stated, fails: the name \<open>precomputed\<close> is not one the code knows. A detector
  built with it hands the input to the distance library, whatever its shape: with a library
  that rejects the name, a 5 by 3 input gets the library's error and not the shape error, and
  a square input is not returned; without the library both get the import error.
\<close>

theorem x2d_precomputed_counterexample:
  "x2d (Some (\<lambda>m X. Inl (MetricError m)))
      (SOS_init (1/10) (Fin (9/2)) ''precomputed'' (Fin (1/100000)))
      [[Fin 0, Fin 1, Fin 2], [Fin 1, Fin 0, Fin 1], [Fin 2, Fin 1, Fin 0], [Fin 3, Fin 2, Fin 1],
       [Fin 4, Fin 3, Fin 2]]
     = Inl (MetricError ''precomputed'')
   \<and> x2d (Some (\<lambda>m X. Inl (MetricError m)))
      (SOS_init (1/10) (Fin (9/2)) ''precomputed'' (Fin (1/100000)))
      [[Fin 0, Fin 1], [Fin 1, Fin 0]]
     \<noteq> Inr [[Fin 0, Fin 1], [Fin 1, Fin 0]]
   \<and> x2d None (SOS_init (1/10) (Fin (9/2)) ''precomputed'' (Fin (1/100000)))
      [[Fin 0, Fin 1], [Fin 1, Fin 0]]
     = Inl ImportError"
proof -
  have "lower ''precomputed'' = ''precomputed''"
    by code_simp
  then show ?thesis
    by (simp add: x2d_def SOS_init_def shape_def ncols_def)
qed

text \<open>
  C2, amended. The metric of a precomputed dissimilarity matrix is named \<open>none\<close> (in any
  casing). With it the dissimilarity computation fails with the shape error when the input
  is not square and returns the input unchanged when it is; the result does not depend on
  the distance library, which is not reached.
\<close>

theorem x2d_none_metric:
  "lower m = ''none'' \<Longrightarrow>
   x2d scipy (SOS_init c p m e) X = (if length X \<noteq> ncols X then Inl ShapeError else Inr X)"
  by (simp add: x2d_metric_none SOS_init_def)

theorem x2d_none_metric_witness:
  "lower ''None'' = ''none''
   \<and> x2d None (SOS_init (1/10) (Fin (9/2)) ''None'' (Fin (1/100000)))
       [[Fin 0, Fin 1, Fin 2], [Fin 1, Fin 0, Fin 1], [Fin 2, Fin 1, Fin 0], [Fin 3, Fin 2, Fin 1],
        [Fin 4, Fin 3, Fin 2]] = Inl ShapeError
   \<and> x2d None (SOS_init (1/10) (Fin (9/2)) ''None'' (Fin (1/100000)))
       [[Fin 0, Fin 1], [Fin 1, Fin 0]] = Inr [[Fin 0, Fin 1], [Fin 1, Fin 0]]"
proof -
  have h: "lower ''None'' = ''none''"
    by code_simp
  show ?thesis
    using h
      x2d_none_metric [OF h, of None "1/10" "Fin (9/2)" "Fin (1/100000)"
        "[[Fin 0, Fin 1, Fin 2], [Fin 1, Fin 0, Fin 1], [Fin 2, Fin 1, Fin 0],
          [Fin 3, Fin 2, Fin 1], [Fin 4, Fin 3, Fin 2]]"]
      x2d_none_metric [OF h, of None "1/10" "Fin (9/2)" "Fin (1/100000)"
        "[[Fin 0, Fin 1], [Fin 1, Fin 0]]"]
    by (simp add: ncols_def)
qed


section \<open>Fitting\<close>

lemma check_array_rejects:
  "X = [] \<or> (\<exists>r \<in> set X. \<exists>x \<in> set r. \<not> isfinite x) \<Longrightarrow> check_array X = Inl ValidationError"
  by (auto simp: check_array_def)

lemma check_array_Inr: "check_array X = Inr X' \<Longrightarrow> X' = X"
  by (auto simp: check_array_def split: if_splits)

text \<open>
  C8, as stated, fails: an input of a single row passes the validation, and \<open>fit\<close>
  runs the stages on it and returns a fitted state.
\<close>

theorem fit_one_row_counterexample:
  "\<not> isl (fit None (\<lambda>c O'. ()) (SOS_init (1/10) (Fin (9/2)) ''euclidean'' (Fin (1/100000)))
      [[Fin 1, Fin 2]])"
proof -
  have "lower ''euclidean'' = ''euclidean''"
    by code_simp
  then show ?thesis
    by (simp add: fit_def check_array_def ncols_def stages_def x2d_def SOS_init_def shape_def
        d2a_def d2a_row_def take_idx_def offdiag_def Let_def transpose_m_def add_rows_def
        scale_def dot_def sum_axis1_def square_def)
qed

text \<open>
  C8, amended. \<open>fit\<close> validates its input before the stages: an input with no rows
  or with an entry that is not finite fails with the validation error, whatever the metric,
  the library and the parameters; a valid input that is not square fails with the shape error
  under the metric \<open>none\<close>; and on a valid input the result is that of the stages
  on this input. An input of one row is valid.
\<close>

theorem fit_validates:
  "(X = [] \<or> (\<exists>r \<in> set X. \<exists>x \<in> set r. \<not> isfinite x)
      \<longrightarrow> fit scipy process self X = Inl ValidationError)
   \<and> (check_array X = Inr X \<and> metric self = ''none'' \<and> length X \<noteq> ncols X
      \<longrightarrow> fit scipy process self X = Inl ShapeError)
   \<and> (check_array X = Inr X
      \<longrightarrow> fit scipy process self X =
          (case stages scipy self X of
             Inl e \<Rightarrow> Inl e
           | Inr O' \<Rightarrow> Inr \<lparr>decision_scores = O', processed = process (contamination self) O'\<rparr>))"
  by (auto simp: fit_def check_array_rejects stages_def x2d_metric_none)

theorem fit_validates_witness:
  "fit None (\<lambda>c O'. ()) (SOS_init (1/10) (Fin (9/2)) ''euclidean'' (Fin (1/100000)))
      [[Fin 1, NaN], [Fin 0, Fin 1]] = Inl ValidationError
   \<and> fit None (\<lambda>c O'. ()) (SOS_init (1/10) (Fin (9/2)) ''euclidean'' (Fin (1/100000)))
      [[Fin 1, PInf], [Fin 0, Fin 1]] = Inl ValidationError
   \<and> fit None (\<lambda>c O'. ()) (SOS_init (1/10) (Fin (9/2)) ''euclidean'' (Fin (1/100000)))
      [] = Inl ValidationError
   \<and> fit None (\<lambda>c O'. ()) (SOS_init (1/10) (Fin (9/2)) ''none'' (Fin (1/100000)))
      [[Fin 0, Fin 1, Fin 2], [Fin 1, Fin 0, Fin 1]] = Inl ShapeError"
proof -
  let ?e = "SOS_init (1/10) (Fin (9/2)) ''euclidean'' (Fin (1/100000))"
  let ?n = "SOS_init (1/10) (Fin (9/2)) ''none'' (Fin (1/100000))"
  have n: "metric ?n = ''none''"
  proof -
    have "lower ''none'' = ''none''" by code_simp
    then show ?thesis by (simp add: SOS_init_def)
  qed
  have c: "check_array [[Fin 0, Fin 1, Fin 2], [Fin 1, Fin 0, Fin 1]]
      = Inr [[Fin 0, Fin 1, Fin 2], [Fin 1, Fin 0, Fin 1]]"
    by (simp add: check_array_def ncols_def)
  show ?thesis
    using fit_validates [of "[[Fin 1, NaN], [Fin 0, Fin 1]]" None "\<lambda>c O'. ()" ?e]
      fit_validates [of "[[Fin 1, PInf], [Fin 0, Fin 1]]" None "\<lambda>c O'. ()" ?e]
      fit_validates [of "[]" None "\<lambda>c O'. ()" ?e]
      fit_validates [of "[[Fin 0, Fin 1, Fin 2], [Fin 1, Fin 0, Fin 1]]" None "\<lambda>c O'. ()" ?n]
      n c
    by (simp add: ncols_def)
qed



section \<open>The outlier scores\<close>

lemma ncols_rect: "rect n d X \<Longrightarrow> 0 < n \<Longrightarrow> ncols X = d"
  by (cases X) (auto simp: rect_def ncols_def)

lemma rect_nth_length: "rect n d X \<Longrightarrow> i < n \<Longrightarrow> length (X ! i) = d"
  by (auto simp: rect_def)

lemma prod_list_nth_prod:
  "prod_list (map f xs) = (\<Prod>i<length xs. f (xs ! i))" for f :: "'a \<Rightarrow> npfloat"
proof (induction xs rule: rev_induct)
  case Nil
  then show ?case by simp
next
  case (snoc x xs)
  have "(\<Prod>i<length xs. f ((xs @ [x]) ! i)) = (\<Prod>i<length xs. f (xs ! i))"
    by (rule prod.cong) (simp_all add: nth_append)
  with snoc show ?case by (simp add: mult.commute)
qed

lemma b2o_nth:
  assumes "rect n n B" "j < n"
  shows "b2o B ! j = (\<Prod>i<n. 1 - B ! i ! j)"
proof -
  have n: "0 < n" using assms by simp
  have len: "length B = n" using assms by (simp add: rect_def)
  have "ncols (map (map (\<lambda>b. 1 - b)) B) = n"
    using assms n by (cases B) (auto simp: ncols_def rect_def)
  then have "b2o B ! j = prod_list (map (\<lambda>r. r ! j) (map (map (\<lambda>b. 1 - b)) B))"
    using assms by (simp add: b2o_def prod_axis0_def)
  also have "\<dots> = prod_list (map (\<lambda>r. 1 - r ! j) B)"
    using assms by (auto simp: rect_def comp_def intro!: arg_cong[where f=prod_list])
  also have "\<dots> = (\<Prod>i<n. 1 - B ! i ! j)"
    by (simp add: prod_list_nth_prod len)
  finally show ?thesis .
qed

lemma length_b2o: "rect n n B \<Longrightarrow> length (b2o B) = n"
  by (cases B) (auto simp: b2o_def prod_axis0_def ncols_def rect_def)

lemma prod_unit_interval:
  assumes "\<forall>i<n::nat. \<exists>a. f i = Fin a \<and> 0 \<le> a \<and> a \<le> 1"
  shows "\<exists>p. (\<Prod>i<n. f i) = Fin p \<and> 0 \<le> p \<and> p \<le> 1"
  using assms
proof (induction n)
  case 0
  then show ?case by (simp add: one_npfloat_def)
next
  case (Suc n)
  then obtain p where p: "(\<Prod>i<n. f i) = Fin p" "0 \<le> p" "p \<le> 1" by auto
  from Suc.prems obtain a where a: "f n = Fin a" "0 \<le> a" "a \<le> 1" by auto
  have "(\<Prod>i<Suc n. f i) = Fin (p * a)"
    using p a by simp
  moreover have "0 \<le> p * a" "p * a \<le> 1"
    using p a by (simp_all add: mult_le_one)
  ultimately show ?case by blast
qed

text \<open>
  C1. For a binding-probability matrix \<open>B\<close> of shape \<open>n\<close> by \<open>n\<close>, the
  aggregation returns a vector of length \<open>n\<close> whose entry \<open>j\<close> is the product,
  over all rows \<open>i\<close> (the row \<open>j\<close> included), of \<open>1 - B[i,j]\<close>: a reduction of
  column \<open>j\<close>. When the entries of that column are finite and lie between 0 and 1, so
  does the score.
\<close>

theorem b2o_column_product:
  assumes "rect n n B" and "j < n"
  shows "length (b2o B) = n
    \<and> b2o B ! j = (\<Prod>i<n. 1 - B ! i ! j)
    \<and> ((\<forall>i<n. \<exists>b. B ! i ! j = Fin b \<and> 0 \<le> b \<and> b \<le> 1)
         \<longrightarrow> (\<exists>p. b2o B ! j = Fin p \<and> 0 \<le> p \<and> p \<le> 1))"
proof (intro conjI impI)
  show "length (b2o B) = n" using assms(1) by (rule length_b2o)
  show eq: "b2o B ! j = (\<Prod>i<n. 1 - B ! i ! j)" using assms by (rule b2o_nth)
  assume h: "\<forall>i<n. \<exists>b. B ! i ! j = Fin b \<and> 0 \<le> b \<and> b \<le> 1"
  have "\<forall>i<n. \<exists>a. 1 - B ! i ! j = Fin a \<and> 0 \<le> a \<and> a \<le> 1"
  proof (intro allI impI)
    fix i assume "i < n"
    with h obtain b where "B ! i ! j = Fin b" "0 \<le> b" "b \<le> 1" by auto
    then show "\<exists>a. 1 - B ! i ! j = Fin a \<and> 0 \<le> a \<and> a \<le> 1"
      by (simp add: one_npfloat_def minus_npfloat_def)
  qed
  from prod_unit_interval [OF this] eq
  show "\<exists>p. b2o B ! j = Fin p \<and> 0 \<le> p \<and> p \<le> 1" by simp
qed

theorem b2o_column_product_witness:
  "rect 2 2 [[Fin 0, Fin 1], [Fin (1/2), Fin 0]] \<and> (1::nat) < 2
   \<and> length (b2o [[Fin 0, Fin 1], [Fin (1/2), Fin 0]]) = 2
   \<and> b2o [[Fin 0, Fin 1], [Fin (1/2), Fin 0]] ! 0 = Fin (1/2)
   \<and> b2o [[Fin 0, Fin 1], [Fin (1/2), Fin 0]] ! 1 = Fin 0"
proof -
  let ?B = "[[Fin 0, Fin 1], [Fin (1/2), Fin 0]]"
  have r: "rect 2 2 ?B" by (simp add: rect_def)
  have two: "{..<2::nat} = {0, 1}" by auto
  show ?thesis
    using r b2o_column_product [OF r, of 0] b2o_column_product [OF r, of 1]
    by (simp add: two one_npfloat_def minus_npfloat_def)
qed



section \<open>The calibration of the affinities\<close>


lemma tries_loop_body [simp]: "tries (loop_body Di logU st) = tries st + 1"
  by (simp add: loop_body_def Let_def split: prod.splits)

lemma calibrate_loop_rule:
  assumes "P st"
    and "\<And>s. P s \<Longrightarrow> loop_cond e s \<Longrightarrow> P (loop_body Di logU s)"
  shows "P (calibrate_loop Di logU e st) \<and> \<not> loop_cond e (calibrate_loop Di logU e st)"
  using assms
proof (induction Di logU e st rule: calibrate_loop.induct)
  case (1 Di logU e st)
  show ?case
  proof (cases "loop_cond e st")
    case True
    have "P (loop_body Di logU st)"
      using "1.prems" True by blast
    then have "P (calibrate_loop Di logU e (loop_body Di logU st))
        \<and> \<not> loop_cond e (calibrate_loop Di logU e (loop_body Di logU st))"
      using "1.IH" [OF True] "1.prems"(2) by blast
    moreover have "calibrate_loop Di logU e st = calibrate_loop Di logU e (loop_body Di logU st)"
      using True by (subst calibrate_loop.simps) simp
    ultimately show ?thesis by simp
  next
    case False
    then have "calibrate_loop Di logU e st = st"
      by (subst calibrate_loop.simps) simp
    with False "1.prems"(1) show ?thesis by simp
  qed
qed

lemma reach_calibrate: "reach Di logU e (calibrate Di logU e)"
  unfolding calibrate_def
  using calibrate_loop_rule [where P = "reach Di logU e", OF reach_init reach_step]
  by blast

lemma calibrate_exit: "\<not> loop_cond e (calibrate Di logU e)"
  unfolding calibrate_def
  using calibrate_loop_rule [where P = "\<lambda>s. True"]
  by blast

lemma get_perplexity_snd: "snd (get_perplexity Di b) = map (\<lambda>d. fexp (- d * b)) Di"
  by (simp add: get_perplexity_def Let_def)

lemma reach_thisA:
  "reach Di logU e st \<Longrightarrow> thisA st = map (\<lambda>d. fexp (- d * beta st)) Di"
  by (induction rule: reach.induct)
     (simp_all add: calib_init_def loop_body_def Let_def get_perplexity_def split: prod.splits)

lemma reach_Hdiff:
  "reach Di logU e st \<Longrightarrow> Hdiff st = fst (get_perplexity Di (beta st)) - logU"
  by (induction rule: reach.induct)
     (simp_all add: calib_init_def loop_body_def Let_def get_perplexity_def split: prod.splits)

lemma reach_tries: "reach Di logU e st \<Longrightarrow> tries st \<le> 5000"
  by (induction rule: reach.induct) (simp_all add: calib_init_def Let_def loop_cond_def split: prod.splits)

lemma reach_iterate:
  "reach Di logU e st \<Longrightarrow> st = (loop_body Di logU ^^ tries st) (calib_init Di logU)"
proof (induction rule: reach.induct)
  case reach_init
  then show ?case by (simp add: calib_init_def Let_def split: prod.splits)
next
  case (reach_step st)
  then show ?case by simp
qed

lemma positive_Fin [simp]: "positive (Fin a) = (0 < a)"
  by (simp add: positive_def)

lemma positive_cases: "positive x \<Longrightarrow> (\<And>a. x = Fin a \<Longrightarrow> 0 < a \<Longrightarrow> thesis) \<Longrightarrow> thesis"
  by (cases x) (auto simp: positive_def)

lemma bounds_inv_init: "bounds_inv (calib_init Di logU)"
  by (simp add: bounds_inv_def calib_init_def Let_def split: prod.splits)

lemma bounds_inv_step:
  assumes "bounds_inv st"
  shows "bounds_inv (loop_body Di logU st)"
proof -
  from assms obtain b where b: "beta st = Fin b" "0 < b"
    by (auto simp: bounds_inv_def elim: positive_cases)
  from assms have mn: "betamin st = NInf \<or> (\<exists>m. betamin st = Fin m \<and> 0 < m)"
    by (auto simp: bounds_inv_def elim: positive_cases)
  from assms have mx: "betamax st = PInf \<or> (\<exists>m. betamax st = Fin m \<and> 0 < m)"
    by (auto simp: bounds_inv_def elim: positive_cases)
  show ?thesis
    using b mn mx
    by (auto simp: bounds_inv_def loop_body_def Let_def split: prod.splits)
qed

lemma reach_bounds_inv: "reach Di logU e st \<Longrightarrow> bounds_inv st"
  by (induction rule: reach.induct) (simp_all add: bounds_inv_init bounds_inv_step)


lemma length_put_idx [simp]: "length (put_idx r idx vs) = length r"
proof -
  have "length (fold (\<lambda>(k, v) r'. r'[k := v]) kvs r) = length r" for kvs :: "(nat \<times> 'a) list"
    by (induction kvs arbitrary: r) (auto split: prod.splits)
  then show ?thesis by (simp add: put_idx_def)
qed

lemma put_idx_Cons: "put_idx r (k # idx) (v # vs) = put_idx (r[k := v]) idx vs"
  by (simp add: put_idx_def)

lemma put_idx_Nil [simp]: "put_idx r [] vs = r"
  by (simp add: put_idx_def)

lemma put_idx_other:
  "j \<notin> set idx \<Longrightarrow> put_idx r idx vs ! j = r ! j"
proof (induction idx arbitrary: r vs)
  case Nil
  then show ?case by simp
next
  case (Cons k idx)
  show ?case
  proof (cases vs)
    case Nil
    then show ?thesis by (simp add: put_idx_def)
  next
    case (Cons v vs')
    with Cons.prems Cons.IH [of "r[k := v]" vs'] show ?thesis
      by (simp add: put_idx_Cons)
  qed
qed

lemma put_idx_nth:
  "distinct idx \<Longrightarrow> length vs = length idx \<Longrightarrow> \<forall>k \<in> set idx. k < length r \<Longrightarrow> p < length idx
   \<Longrightarrow> put_idx r idx vs ! (idx ! p) = vs ! p"
proof (induction idx arbitrary: r vs p)
  case Nil
  then show ?case by simp
next
  case (Cons k idx)
  then obtain v vs' where vs: "vs = v # vs'" by (cases vs) auto
  show ?case
  proof (cases p)
    case 0
    with Cons.prems vs show ?thesis
      by (simp add: put_idx_Cons put_idx_other)
  next
    case (Suc q)
    with Cons.prems vs Cons.IH [of vs' "r[k := v]" q] show ?thesis
      by (simp add: put_idx_Cons)
  qed
qed

lemma length_offdiag: "i < n \<Longrightarrow> length (offdiag i n) = n - 1"
  by (simp add: offdiag_def)

lemma distinct_offdiag: "distinct (offdiag i n)"
  by (auto simp: offdiag_def)

lemma set_offdiag: "i < n \<Longrightarrow> set (offdiag i n) = {..<n} - {i}"
  by (auto simp: offdiag_def)

lemma offdiag_nth: "i < n \<Longrightarrow> p < n - 1 \<Longrightarrow> offdiag i n ! p = (if p < i then p else Suc p)"
  by (auto simp: offdiag_def nth_append)

lemma collect_map_Inr:
  "(\<And>x. x \<in> set xs \<Longrightarrow> f x = Inr (g x)) \<Longrightarrow> collect (map f xs) = Inr (map g xs)"
  by (induction xs) simp_all

lemma take_idx_offdiag:
  "rect n n D \<Longrightarrow> i < n \<Longrightarrow> take_idx (D ! i) (offdiag i n) = Inr (row_of D i)"
  by (auto simp: take_idx_def rect_def offdiag_def row_of_def)

lemma d2a_square:
  assumes "rect n n D"
  shows "d2a self D = Inr (map (affinity_row self D) [0..<n])"
proof -
  have len: "length D = n" using assms by (simp add: rect_def)
  have "d2a_row self D i = Inr (affinity_row self D i)" if "i \<in> set [0..<n]" for i
    using that assms len by (simp add: d2a_row_def Let_def take_idx_offdiag affinity_row_def)
  then show ?thesis
    unfolding d2a_def len by (rule collect_map_Inr)
qed

lemma length_thisA_calibrate: "length (thisA (calibrate Di logU e)) = length Di"
  using reach_thisA [OF reach_calibrate, of Di logU e] by simp

lemma affinity_row_nth:
  assumes "rect n n D" "i < n" "j < n"
  shows "affinity_row self D i ! j =
     (let ker = thisA (calibrate (row_of D i) (flog (perplexity self)) (eps self))
      in if j = i then Fin 0 else if j < i then ker ! j else ker ! (j - 1))"
proof -
  have len: "length D = n" using assms by (simp add: rect_def)
  let ?ker = "thisA (calibrate (row_of D i) (flog (perplexity self)) (eps self))"
  have lk: "length ?ker = n - 1"
    using assms by (simp add: length_thisA_calibrate row_of_def len length_offdiag)
  show ?thesis
  proof (cases "j = i")
    case True
    then have "j \<notin> set (offdiag i n)" using assms by (simp add: set_offdiag)
    then show ?thesis
      using True assms by (simp add: affinity_row_def len put_idx_other)
  next
    case False
    define p where "p = (if j < i then j else j - 1)"
    have p: "p < n - 1" "offdiag i n ! p = j"
      using False assms by (auto simp: p_def offdiag_nth)
    have "put_idx (replicate n (Fin 0)) (offdiag i n) ?ker ! (offdiag i n ! p) = ?ker ! p"
      using assms p lk
      by (intro put_idx_nth) (auto simp: distinct_offdiag length_offdiag set_offdiag)
    then show ?thesis
      using False p by (simp add: affinity_row_def len p_def Let_def)
  qed
qed

lemma length_affinity_row [simp]: "length (affinity_row self D i) = length D"
  by (simp add: affinity_row_def)

text \<open>
  C4. The calibration of a row is a total function: for every square dissimilarity matrix,
  every perplexity and every tolerance it returns, after \<open>tries\<close> turns of the loop, at
  most 5000, in a state where the loop's condition is false. Running out of turns is no
  error: \<open>_d2a\<close> returns a matrix, whose row \<open>i\<close> holds the last kernel in the columns
  other than \<open>i\<close>, in their order, and 0 in column \<open>i\<close>.
\<close>

theorem calibration_terminates:
  assumes "rect n n D" and "i < n" and "j < n"
  shows "let logU = flog (perplexity self);
             Di = map (\<lambda>k. D ! i ! k) (offdiag i n);
             st = calibrate Di logU (eps self)
         in tries st \<le> 5000
            \<and> st = (loop_body Di logU ^^ tries st) (calib_init Di logU)
            \<and> \<not> loop_cond (eps self) st
            \<and> length (thisA st) = n - 1
            \<and> (\<exists>A. d2a self D = Inr A \<and> rect n n A
                 \<and> A ! i ! j = (if j = i then Fin 0
                                else if j < i then thisA st ! j else thisA st ! (j - 1)))"
proof -
  have len: "length D = n" using assms by (simp add: rect_def)
  define logU where "logU = flog (perplexity self)"
  define Di where "Di = map (\<lambda>k. D ! i ! k) (offdiag i n)"
  define st where "st = calibrate Di logU (eps self)"
  have Di: "Di = row_of D i" by (simp add: Di_def row_of_def len)
  have r: "reach Di logU (eps self) st"
    unfolding st_def by (rule reach_calibrate)
  have 1: "tries st \<le> 5000" using r by (rule reach_tries)
  have 2: "st = (loop_body Di logU ^^ tries st) (calib_init Di logU)" using r by (rule reach_iterate)
  have 3: "\<not> loop_cond (eps self) st" unfolding st_def by (rule calibrate_exit)
  have 4: "length (thisA st) = n - 1"
    using assms by (simp add: st_def length_thisA_calibrate Di_def length_offdiag)
  let ?A = "map (affinity_row self D) [0..<n]"
  have 5: "d2a self D = Inr ?A" using assms(1) by (rule d2a_square)
  have 6: "rect n n ?A" by (simp add: rect_def len)
  have 7: "?A ! i ! j = (if j = i then Fin 0 else if j < i then thisA st ! j else thisA st ! (j - 1))"
    using assms affinity_row_nth [OF assms, of self]
    by (simp add: st_def Di logU_def Let_def)
  from 1 2 3 4 5 6 7 show ?thesis
    unfolding Let_def logU_def [symmetric] Di_def [symmetric] st_def [symmetric] by blast
qed


lemma ln_2_gt_eps: "1 / 100000 < ln (2::real)"
proof -
  have "exp (1 / 100000 :: real) \<le> 1 + 1 / 100000 + (1 / 100000)\<^sup>2"
    by (rule exp_bound) simp_all
  also have "\<dots> < 2" by (simp add: power2_eq_square)
  finally have "exp (1 / 100000 :: real) < exp (ln 2)" by simp
  then show ?thesis by (simp only: exp_less_cancel_iff)
qed

lemma calib_init_example:
  "calib_init [Fin 0, Fin 0] (Fin 0) =
     \<lparr>beta = Fin 1, betamin = NInf, betamax = PInf, thisA = [Fin 1, Fin 1], Hdiff = Fin (ln 2),
      tries = 0\<rparr>"
  by (simp add: calib_init_def get_perplexity_def Let_def zero_npfloat_def minus_npfloat_def)

lemma loop_cond_example: "loop_cond (Fin (1 / 100000)) (calib_init [Fin 0, Fin 0] (flog (Fin 1)))"
  using ln_2_gt_eps by (simp add: calib_init_example loop_cond_def)

text \<open>
  C3. One turn of the loop, from a state of the calibration where the loop's condition holds.
  If \<open>Hdiff\<close> is nan, \<open>beta\<close> is divided by 10 and the bounds are kept. Else if
  \<open>Hdiff > 0\<close>, \<open>betamin\<close> becomes the current \<open>beta\<close>, and \<open>beta\<close> is doubled
  when \<open>betamax\<close> is still infinite and is the mean of \<open>beta\<close> and \<open>betamax\<close>
  otherwise. Else \<open>betamax\<close> becomes the current \<open>beta\<close>, and \<open>beta\<close> is
  halved when \<open>betamin\<close> is still infinite and is the mean of \<open>beta\<close> and
  \<open>betamin\<close> otherwise; in this last case \<open>Hdiff < 0\<close>, unless the tolerance is
  negative. Then the kernel and the entropy are those of the new \<open>beta\<close>, and the count of
  turns grows by one.
\<close>

theorem calibration_step:
  assumes "reach Di logU e st" and "loop_cond e st"
  shows "let st' = loop_body Di logU st in
     (isnan (Hdiff st) \<longrightarrow>
        beta st' = beta st / Fin 10 \<and> betamin st' = betamin st \<and> betamax st' = betamax st)
     \<and> (\<not> isnan (Hdiff st) \<and> fgt (Hdiff st) (Fin 0) \<longrightarrow>
        betamin st' = beta st \<and> betamax st' = betamax st
        \<and> beta st' = (if betamax st = PInf then beta st * Fin 2 else (beta st + betamax st) / Fin 2))
     \<and> (\<not> isnan (Hdiff st) \<and> \<not> fgt (Hdiff st) (Fin 0) \<longrightarrow>
        betamax st' = beta st \<and> betamin st' = betamin st
        \<and> beta st' = (if betamin st = NInf then beta st / Fin 2 else (beta st + betamin st) / Fin 2))
     \<and> (\<not> isnan (Hdiff st) \<and> \<not> fgt (Hdiff st) (Fin 0) \<and> \<not> fgt (Fin 0) e \<longrightarrow>
        fgt (Fin 0) (Hdiff st))
     \<and> thisA st' = map (\<lambda>d. fexp (- d * beta st')) Di
     \<and> Hdiff st' =
         flog (sum_list (thisA st'))
           + beta st' * sum_list (map2 times Di (thisA st')) / sum_list (thisA st') - logU
     \<and> tries st' = tries st + 1
     \<and> calibrate_loop Di logU e st = calibrate_loop Di logU e st'"
proof -
  have inv: "bounds_inv st" using assms(1) by (rule reach_bounds_inv)
  then have mx: "(feq (betamax st) PInf \<or> feq (betamax st) NInf) = (betamax st = PInf)"
    by (auto simp: bounds_inv_def elim: positive_cases)
  from inv have mn: "(feq (betamin st) PInf \<or> feq (betamin st) NInf) = (betamin st = NInf)"
    by (auto simp: bounds_inv_def elim: positive_cases)
  define st' where "st' = loop_body Di logU st"
  have 1: "isnan (Hdiff st) \<longrightarrow>
        beta st' = beta st / Fin 10 \<and> betamin st' = betamin st \<and> betamax st' = betamax st"
    by (simp add: st'_def loop_body_def Let_def split: prod.splits)
  have 2: "\<not> isnan (Hdiff st) \<and> fgt (Hdiff st) (Fin 0) \<longrightarrow>
        betamin st' = beta st \<and> betamax st' = betamax st
        \<and> beta st' = (if betamax st = PInf then beta st * Fin 2 else (beta st + betamax st) / Fin 2)"
    by (simp add: st'_def loop_body_def Let_def mx split: prod.splits)
  have 3: "\<not> isnan (Hdiff st) \<and> \<not> fgt (Hdiff st) (Fin 0) \<longrightarrow>
        betamax st' = beta st \<and> betamin st' = betamin st
        \<and> beta st' = (if betamin st = NInf then beta st / Fin 2 else (beta st + betamin st) / Fin 2)"
    by (simp add: st'_def loop_body_def Let_def mn split: prod.splits)
  have 4: "\<not> isnan (Hdiff st) \<and> \<not> fgt (Hdiff st) (Fin 0) \<and> \<not> fgt (Fin 0) e \<longrightarrow>
        fgt (Fin 0) (Hdiff st)"
    using assms(2) by (cases "Hdiff st"; cases e) (auto simp: loop_cond_def)
  have r': "reach Di logU e st'"
    unfolding st'_def using assms by (rule reach_step)
  have 5: "thisA st' = map (\<lambda>d. fexp (- d * beta st')) Di"
    using r' by (rule reach_thisA)
  have 6: "Hdiff st' =
         flog (sum_list (thisA st'))
           + beta st' * sum_list (map2 times Di (thisA st')) / sum_list (thisA st') - logU"
    using reach_Hdiff [OF r'] by (simp add: 5 get_perplexity_def Let_def)
  have 7: "tries st' = tries st + 1" by (simp add: st'_def)
  have 8: "calibrate_loop Di logU e st = calibrate_loop Di logU e st'"
    using assms(2) unfolding st'_def by (subst calibrate_loop.simps) simp
  from 1 2 3 4 5 6 7 8 show ?thesis
    unfolding Let_def st'_def [symmetric] by blast
qed

theorem calibration_step_witness:
  "reach [Fin 0, Fin 0] (flog (Fin 1)) (Fin (1 / 100000)) (calib_init [Fin 0, Fin 0] (flog (Fin 1)))
   \<and> loop_cond (Fin (1 / 100000)) (calib_init [Fin 0, Fin 0] (flog (Fin 1)))
   \<and> beta (loop_body [Fin 0, Fin 0] (flog (Fin 1)) (calib_init [Fin 0, Fin 0] (flog (Fin 1)))) = Fin 2
   \<and> betamin (loop_body [Fin 0, Fin 0] (flog (Fin 1)) (calib_init [Fin 0, Fin 0] (flog (Fin 1)))) = Fin 1
   \<and> betamax (loop_body [Fin 0, Fin 0] (flog (Fin 1)) (calib_init [Fin 0, Fin 0] (flog (Fin 1)))) = PInf
   \<and> tries (loop_body [Fin 0, Fin 0] (flog (Fin 1)) (calib_init [Fin 0, Fin 0] (flog (Fin 1)))) = 1"
proof -
  let ?Di = "[Fin 0, Fin 0]" and ?logU = "flog (Fin 1)" and ?e = "Fin (1 / 100000)"
  have r: "reach ?Di ?logU ?e (calib_init ?Di ?logU)" by (rule reach_init)
  have c: "loop_cond ?e (calib_init ?Di ?logU)" by (rule loop_cond_example)
  have h: "\<not> isnan (Hdiff (calib_init ?Di ?logU)) \<and> fgt (Hdiff (calib_init ?Di ?logU)) (Fin 0)"
    by (simp add: calib_init_example)
  have i: "beta (calib_init ?Di ?logU) = Fin 1" "betamin (calib_init ?Di ?logU) = NInf"
    "betamax (calib_init ?Di ?logU) = PInf" "tries (calib_init ?Di ?logU) = 0"
    by (simp_all add: calib_init_example)
  from calibration_step [OF r c] h
  have "beta (loop_body ?Di ?logU (calib_init ?Di ?logU)) = Fin 1 * Fin 2
    \<and> betamin (loop_body ?Di ?logU (calib_init ?Di ?logU)) = Fin 1
    \<and> betamax (loop_body ?Di ?logU (calib_init ?Di ?logU)) = PInf
    \<and> tries (loop_body ?Di ?logU (calib_init ?Di ?logU)) = 1"
    unfolding Let_def i by simp
  with r c show ?thesis by simp
qed

section \<open>The binding probabilities\<close>

lemma sum_list_Fin: "sum_list (map Fin xs) = Fin (sum_list xs)"
  by (induction xs) (simp_all add: zero_npfloat_def)

lemma all_finite_map_Fin:
  assumes "\<forall>k<length r. \<exists>a. r ! k = Fin a"
  shows "r = map Fin (map real_of r)"
proof (rule nth_equalityI)
  show "length r = length (map Fin (map real_of r))" by simp
next
  fix k assume "k < length r"
  with assms obtain a where "r ! k = Fin a" by blast
  with \<open>k < length r\<close> show "r ! k = map Fin (map real_of r) ! k" by simp
qed

lemma sum_list_divide_real: "sum_list (map (\<lambda>x. x / s) xs) = sum_list xs / s" for s :: real
  by (induction xs) (simp_all add: add_divide_distrib)

lemma a2b_nth:
  assumes "rect n n A" "i < n" "j < n"
  shows "a2b A ! i ! j = A ! i ! j / sum_list (A ! i)"
  using assms by (simp add: a2b_def rect_def)

lemma a2b_row: "i < length A \<Longrightarrow> a2b A ! i = map (\<lambda>a. a / sum_list (A ! i)) (A ! i)"
  by (simp add: a2b_def)

lemma rect_a2b: "rect n m A \<Longrightarrow> rect n m (a2b A)"
  by (auto simp: a2b_def rect_def)

lemma sum_list_npfloat_nth: "sum_list r = (\<Sum>k<length r. r ! k)" for r :: vector
  using sum_list_sum_nth [of r] by (simp add: atLeast0LessThan)

lemma a2b_row_sum_one:
  assumes "\<forall>k<length r. \<exists>a. r ! k = Fin a" and "sum_list r \<noteq> Fin 0"
  shows "sum_list (map (\<lambda>a. a / sum_list r) r) = Fin 1"
proof -
  define xs where "xs = map real_of r"
  have r: "r = map Fin xs" unfolding xs_def using assms(1) by (rule all_finite_map_Fin)
  have s: "sum_list r = Fin (sum_list xs)" by (simp add: r sum_list_Fin)
  with assms(2) have nz: "sum_list xs \<noteq> 0" by simp
  have "map (\<lambda>a. a / sum_list r) r = map Fin (map (\<lambda>x. x / sum_list xs) xs)"
    unfolding s using nz by (simp add: r)
  then have "sum_list (map (\<lambda>a. a / sum_list r) r) = Fin (sum_list (map (\<lambda>x. x / sum_list xs) xs))"
    by (simp only: sum_list_Fin)
  also have "\<dots> = Fin 1" using nz by (simp add: sum_list_divide_real)
  finally show ?thesis .
qed

lemma a2b_row_nan:
  assumes "\<forall>k<length r. \<exists>a. r ! k = Fin a \<and> 0 \<le> a" and "sum_list r = Fin 0" and "k < length r"
  shows "r ! k / sum_list r = NaN"
proof -
  define xs where "xs = map real_of r"
  have "\<forall>k<length r. \<exists>a. r ! k = Fin a" using assms(1) by blast
  then have r: "r = map Fin xs" unfolding xs_def by (rule all_finite_map_Fin)
  have nonneg: "\<forall>x \<in> set xs. 0 \<le> x"
  proof
    fix x assume "x \<in> set xs"
    then obtain k where k: "k < length r" "x = real_of (r ! k)"
      by (auto simp: xs_def in_set_conv_nth)
    with assms(1) show "0 \<le> x" by auto
  qed
  have "sum_list xs = 0" using assms(2) by (simp add: r sum_list_Fin)
  with nonneg have "\<forall>x \<in> set xs. x = 0"
    by (simp add: sum_list_nonneg_eq_0_iff)
  then have "xs ! k = 0" using assms(3) by (simp add: xs_def)
  then have "r ! k = Fin 0" using assms(3) r by (metis length_map nth_map)
  with assms(2) show ?thesis by simp
qed

text \<open>
  C6. For an affinity matrix \<open>A\<close> of shape \<open>n\<close> by \<open>n\<close>, \<open>_a2b\<close> returns the
  matrix whose row \<open>i\<close> is row \<open>i\<close> of \<open>A\<close> divided by its sum. When the row is
  finite and its sum is not zero, the row of \<open>B\<close> sums to 1; when moreover
  \<open>A[i,i] = 0\<close>, then \<open>B[i,i] = 0\<close> and the entries off the diagonal sum to 1. When
  the row is finite, not negative, and its sum is zero, every entry of the row of \<open>B\<close> is
  nan; no error is raised, \<open>_a2b\<close> has no error result.
\<close>

theorem a2b_normalizes:
  assumes "rect n n A" and "i < n" and "j < n"
  shows "rect n n (a2b A)
     \<and> a2b A ! i ! j = A ! i ! j / sum_list (A ! i)
     \<and> ((\<forall>k<n. \<exists>a. A ! i ! k = Fin a) \<and> sum_list (A ! i) \<noteq> Fin 0 \<longrightarrow>
          sum_list (a2b A ! i) = Fin 1
          \<and> (A ! i ! i = Fin 0 \<longrightarrow>
               a2b A ! i ! i = Fin 0 \<and> (\<Sum>k \<in> {..<n} - {i}. a2b A ! i ! k) = Fin 1))
     \<and> ((\<forall>k<n. \<exists>a. A ! i ! k = Fin a \<and> 0 \<le> a) \<and> sum_list (A ! i) = Fin 0 \<longrightarrow>
          (\<forall>k<n. a2b A ! i ! k = NaN))"
proof -
  have len: "length A = n" and row: "length (A ! i) = n"
    using assms by (auto simp: rect_def)
  have brow: "a2b A ! i = map (\<lambda>a. a / sum_list (A ! i)) (A ! i)"
    using assms len by (simp add: a2b_row)
  have 1: "rect n n (a2b A)" using assms(1) by (rule rect_a2b)
  have 2: "a2b A ! i ! j = A ! i ! j / sum_list (A ! i)" using assms by (rule a2b_nth)
  have 3: "sum_list (a2b A ! i) = Fin 1
        \<and> (A ! i ! i = Fin 0 \<longrightarrow>
             a2b A ! i ! i = Fin 0 \<and> (\<Sum>k \<in> {..<n} - {i}. a2b A ! i ! k) = Fin 1)"
    if fin: "\<forall>k<n. \<exists>a. A ! i ! k = Fin a" and nz: "sum_list (A ! i) \<noteq> Fin 0"
  proof -
    have one: "sum_list (a2b A ! i) = Fin 1"
      unfolding brow using fin nz row by (intro a2b_row_sum_one) simp_all
    obtain s where s: "sum_list (A ! i) = Fin s" "s \<noteq> 0"
      using all_finite_map_Fin [of "A ! i"] fin row nz
      by (metis sum_list_Fin)
    have "a2b A ! i ! i = Fin 0 \<and> (\<Sum>k \<in> {..<n} - {i}. a2b A ! i ! k) = Fin 1"
      if z: "A ! i ! i = Fin 0"
    proof -
      have d: "a2b A ! i ! i = Fin 0"
        using a2b_nth [OF assms(1,2,2)] z s by simp
      have "sum_list (a2b A ! i) = (\<Sum>k<n. a2b A ! i ! k)"
        using sum_list_npfloat_nth [of "a2b A ! i"] row by (simp add: brow)
      also have "\<dots> = a2b A ! i ! i + (\<Sum>k \<in> {..<n} - {i}. a2b A ! i ! k)"
        using assms(2) by (intro sum.remove) simp_all
      also have "\<dots> = (\<Sum>k \<in> {..<n} - {i}. a2b A ! i ! k)"
        using d by (simp flip: zero_npfloat_def)
      finally show ?thesis using one d by simp
    qed
    with one show ?thesis by blast
  qed
  have 4: "\<forall>k<n. a2b A ! i ! k = NaN"
    if "\<forall>k<n. \<exists>a. A ! i ! k = Fin a \<and> 0 \<le> a" and "sum_list (A ! i) = Fin 0"
  proof (intro allI impI)
    fix k assume k: "k < n"
    have "A ! i ! k / sum_list (A ! i) = NaN"
      using that k row by (intro a2b_row_nan) simp_all
    then show "a2b A ! i ! k = NaN"
      using a2b_nth [OF assms(1,2) k] by simp
  qed
  from 1 2 3 4 show ?thesis by blast
qed

theorem a2b_normalizes_witness:
  "rect 2 2 [[Fin 0, Fin 2], [Fin 0, Fin 0]] \<and> (0::nat) < 2 \<and> (1::nat) < 2
   \<and> a2b [[Fin 0, Fin 2], [Fin 0, Fin 0]] ! 0 ! 1 = Fin 1
   \<and> a2b [[Fin 0, Fin 2], [Fin 0, Fin 0]] ! 0 ! 0 = Fin 0
   \<and> sum_list (a2b [[Fin 0, Fin 2], [Fin 0, Fin 0]] ! 0) = Fin 1
   \<and> a2b [[Fin 0, Fin 2], [Fin 0, Fin 0]] ! 1 ! 0 = NaN
   \<and> a2b [[Fin 0, Fin 2], [Fin 0, Fin 0]] ! 1 ! 1 = NaN"
proof -
  let ?A = "[[Fin 0, Fin 2], [Fin 0, Fin 0]]"
  have r: "rect 2 2 ?A" by (simp add: rect_def)
  have i0: "(0::nat) < 2" and i1: "(1::nat) < 2" by simp_all
  have all2: "(\<forall>k<2::nat. P k) = (P 0 \<and> P 1)" for P
    by (auto simp: less_2_cases_iff)
  from a2b_normalizes [OF r i0 i1] a2b_normalizes [OF r i1 i0]
  have "a2b ?A ! 0 ! 1 = Fin 1 \<and> a2b ?A ! 0 ! 0 = Fin 0 \<and> sum_list (a2b ?A ! 0) = Fin 1
     \<and> a2b ?A ! 1 ! 0 = NaN \<and> a2b ?A ! 1 ! 1 = NaN"
    by (simp add: all2 zero_npfloat_def)
  with r show ?thesis by simp
qed

section \<open>A run that exhausts the turns\<close>

lemma get_perplexity_zero_row:
  "get_perplexity [Fin 0, Fin 0, Fin 0, Fin 0] (Fin b) = (Fin (ln 4), [Fin 1, Fin 1, Fin 1, Fin 1])"
  by (simp add: get_perplexity_def Let_def zero_npfloat_def)

lemma ln_4_50: "ln (4::real) - ln 50 < 0" "1 / 100000 < \<bar>ln (4::real) - ln 50\<bar>"
proof -
  have lt: "ln (4::real) < ln 50" by simp
  then show "ln (4::real) - ln 50 < 0" by simp
  have "ln (4 * 2 :: real) = ln 4 + ln 2" by (rule ln_mult_pos) simp_all
  moreover have "ln (4 * 2 :: real) \<le> ln 50" by simp
  ultimately have "ln 2 \<le> ln (50::real) - ln 4" by linarith
  with ln_2_gt_eps lt show "1 / 100000 < \<bar>ln (4::real) - ln 50\<bar>" by linarith
qed

lemma calib_init_zero_row:
  "calib_init [Fin 0, Fin 0, Fin 0, Fin 0] (Fin (ln 50)) = halving_state 0"
  by (simp add: calib_init_def get_perplexity_zero_row halving_state_def minus_npfloat_def)

lemma loop_cond_halving:
  "loop_cond (Fin (1 / 100000)) (halving_state k) = (k < 5000)"
  using ln_4_50 by (simp add: loop_cond_def halving_state_def)

lemma loop_body_halving:
  "loop_body [Fin 0, Fin 0, Fin 0, Fin 0] (Fin (ln 50)) (halving_state k) = halving_state (Suc k)"
proof -
  have "\<not> ln (50::real) < ln 4" by simp
  then show ?thesis
    by (simp add: loop_body_def halving_state_def get_perplexity_zero_row minus_npfloat_def)
qed

lemma calibrate_loop_halving:
  "k \<le> 5000 \<Longrightarrow>
   calibrate_loop [Fin 0, Fin 0, Fin 0, Fin 0] (Fin (ln 50)) (Fin (1 / 100000)) (halving_state k)
     = halving_state 5000"
proof (induction "5000 - k" arbitrary: k)
  case 0
  then have "k = 5000" by simp
  then show ?case
    by (subst calibrate_loop.simps) (simp add: loop_cond_halving)
next
  case (Suc m)
  then have k: "k < 5000" by simp
  have "calibrate_loop [Fin 0, Fin 0, Fin 0, Fin 0] (Fin (ln 50)) (Fin (1 / 100000)) (halving_state k)
      = calibrate_loop [Fin 0, Fin 0, Fin 0, Fin 0] (Fin (ln 50)) (Fin (1 / 100000))
          (halving_state (Suc k))"
    using k by (subst calibrate_loop.simps) (simp add: loop_cond_halving loop_body_halving)
  also have "\<dots> = halving_state 5000"
    using Suc k by (intro Suc.hyps(1)) simp_all
  finally show ?case .
qed

lemma calibrate_zero_row:
  "calibrate [Fin 0, Fin 0, Fin 0, Fin 0] (flog (Fin 50)) (Fin (1 / 100000)) = halving_state 5000"
proof -
  have "flog (Fin 50) = Fin (ln 50)" by simp
  then show ?thesis
    unfolding calibrate_def
    by (simp only: calib_init_zero_row) (rule calibrate_loop_halving, simp)
qed

theorem calibration_terminates_witness:
  "rect 5 5 [[Fin 0, Fin 0, Fin 0, Fin 0, Fin 0], [Fin 0, Fin 0, Fin 0, Fin 0, Fin 0],
             [Fin 0, Fin 0, Fin 0, Fin 0, Fin 0], [Fin 0, Fin 0, Fin 0, Fin 0, Fin 0],
             [Fin 0, Fin 0, Fin 0, Fin 0, Fin 0]]
   \<and> (0::nat) < 5 \<and> (1::nat) < 5
   \<and> tries (calibrate [Fin 0, Fin 0, Fin 0, Fin 0] (flog (Fin 50)) (Fin (1 / 100000))) = 5000
   \<and> thisA (calibrate [Fin 0, Fin 0, Fin 0, Fin 0] (flog (Fin 50)) (Fin (1 / 100000)))
       = [Fin 1, Fin 1, Fin 1, Fin 1]
   \<and> (\<exists>A. d2a (SOS_init (1 / 10) (Fin 50) ''euclidean'' (Fin (1 / 100000)))
         [[Fin 0, Fin 0, Fin 0, Fin 0, Fin 0], [Fin 0, Fin 0, Fin 0, Fin 0, Fin 0],
          [Fin 0, Fin 0, Fin 0, Fin 0, Fin 0], [Fin 0, Fin 0, Fin 0, Fin 0, Fin 0],
          [Fin 0, Fin 0, Fin 0, Fin 0, Fin 0]] = Inr A
        \<and> A ! 0 ! 1 = Fin 1)"
proof -
  let ?D = "[[Fin 0, Fin 0, Fin 0, Fin 0, Fin 0], [Fin 0, Fin 0, Fin 0, Fin 0, Fin 0],
             [Fin 0, Fin 0, Fin 0, Fin 0, Fin 0], [Fin 0, Fin 0, Fin 0, Fin 0, Fin 0],
             [Fin 0, Fin 0, Fin 0, Fin 0, Fin 0]]"
  let ?self = "SOS_init (1 / 10) (Fin 50) ''euclidean'' (Fin (1 / 100000))"
  let ?st = "calibrate [Fin 0, Fin 0, Fin 0, Fin 0] (flog (Fin 50)) (Fin (1 / 100000))"
  have r: "rect 5 5 ?D" by (simp add: rect_def)
  have i: "(0::nat) < 5" and j: "(1::nat) < 5" by simp_all
  have p: "perplexity ?self = Fin 50" "eps ?self = Fin (1 / 100000)"
    by (simp_all add: SOS_init_def)
  have o: "offdiag 0 5 = [1, 2, 3, 4]"
    by (simp add: offdiag_def upt_rec)
  have Di: "map (\<lambda>k. ?D ! 0 ! k) (offdiag 0 5) = [Fin 0, Fin 0, Fin 0, Fin 0]"
    unfolding o by simp
  have t: "tries ?st = 5000" and k: "thisA ?st = [Fin 1, Fin 1, Fin 1, Fin 1]"
    by (simp_all only: calibrate_zero_row) (simp_all add: halving_state_def)
  from calibration_terminates [OF r i j, of ?self]
  have "\<exists>A. d2a ?self ?D = Inr A \<and> A ! 0 ! 1 = thisA ?st ! 0"
    unfolding Let_def p Di by auto
  then obtain A where A: "d2a ?self ?D = Inr A" "A ! 0 ! 1 = thisA ?st ! 0"
    by blast
  have "A ! 0 ! 1 = Fin 1"
    unfolding A(2) k by simp
  with A(1) have "\<exists>A. d2a ?self ?D = Inr A \<and> A ! 0 ! 1 = Fin 1"
    by blast
  with r i j t k show ?thesis by blast
qed

section \<open>The calibration in float64\<close>

lemma round_half_even_of_int [simp]: "round_half_even (of_int n) = n"
  by (simp add: round_half_even_def)

lemma round_half_even_ge: "of_int n \<le> y \<Longrightarrow> n \<le> round_half_even y"
proof -
  assume "of_int n \<le> y"
  then have "n \<le> \<lfloor>y\<rfloor>" by (simp add: le_floor_iff)
  then show ?thesis by (auto simp: round_half_even_def Let_def)
qed

lemma round_half_even_le: "y \<le> of_int n \<Longrightarrow> round_half_even y \<le> n"
proof -
  assume y: "y \<le> of_int n"
  show ?thesis
  proof (cases "y = of_int n")
    case True
    then show ?thesis by simp
  next
    case False
    with y have "y < of_int n" by simp
    then have "\<lfloor>y\<rfloor> < n" by (simp add: floor_less_iff)
    then show ?thesis by (auto simp: round_half_even_def Let_def)
  qed
qed

lemma round_half_even_half [simp]: "round_half_even (1 / 2) = 0"
  by (simp add: round_half_even_def)

lemma round_half_even_uminus: "round_half_even (- y) = - round_half_even y"
proof (cases "y = of_int \<lfloor>y\<rfloor>")
  case True
  then obtain n where "y = of_int n" ..
  then show ?thesis by (simp flip: of_int_minus)
next
  case False
  then have fl: "\<lfloor>- y\<rfloor> = - \<lfloor>y\<rfloor> - 1"
    by (simp add: floor_minus ceiling_altdef)
  have t: "0 < y - of_int \<lfloor>y\<rfloor>" "y - of_int \<lfloor>y\<rfloor> < 1"
    using False by linarith+
  show ?thesis
    using t unfolding round_half_even_def Let_def fl
    by (auto simp: algebra_simps)
qed

lemma ulp64_pos [simp]: "0 < ulp64 x"
  by (simp add: ulp64_def)

lemma ulp64_ge0 [simp]: "0 \<le> ulp64 x"
  by (simp add: ulp64_def)

lemma ulp64_neq0 [simp]: "ulp64 x \<noteq> 0"
  by (simp add: ulp64_def)

lemma ulp64_uminus [simp]: "ulp64 (- x) = ulp64 x"
  by (simp add: ulp64_def)

lemma floor_log2_powr: "\<lfloor>log 2 (2 powr of_int j)\<rfloor> = j"
  by simp

lemma powr_int_nat: "0 \<le> k \<Longrightarrow> (2::real) powr of_int k = of_int (2 ^ nat k)" for k :: int
proof -
  assume "0 \<le> k"
  then have "(2::real) powr of_int k = 2 powr real (nat k)" by simp
  also have "\<dots> = 2 ^ nat k" by (simp add: powr_realpow)
  finally show ?thesis by simp
qed

lemma round_half_even_power [simp]: "round_half_even (2 ^ n) = 2 ^ n"
proof -
  have "round_half_even (of_int (2 ^ n)) = 2 ^ n" by (rule round_half_even_of_int)
  then show ?thesis by simp
qed

lemma powr_below_overflow:
  assumes "j \<le> 1023"
  shows "(2::real) powr of_int j < 2 ^ 1024"
proof -
  have "(2::real) powr of_int j < 2 powr of_int (1024::int)"
    using assms by (intro powr_less_mono) simp_all
  also have "\<dots> = of_int (2 ^ nat 1024)"
    by (rule powr_int_nat) simp
  also have "\<dots> = 2 ^ 1024" by simp
  finally show ?thesis .
qed

lemma rnd64_uminus: "rnd64 (- x) = - rnd64 x"
proof (cases "x = 0")
  case True
  then show ?thesis by (simp add: rnd64_def)
next
  case False
  then show ?thesis
    by (simp add: rnd64_def Let_def round_half_even_uminus)
qed

lemma rnd64_nonneg:
  assumes "0 \<le> x"
  shows "rnd64 x = PInf \<or> (\<exists>r. rnd64 x = Fin r \<and> 0 \<le> r)"
proof (cases "x = 0")
  case True
  then show ?thesis by (simp add: rnd64_def)
next
  case False
  with assms have "0 \<le> x / ulp64 x" by simp
  then have "0 \<le> round_half_even (x / ulp64 x)"
    using round_half_even_ge [of 0] by simp
  then have "0 \<le> of_int (round_half_even (x / ulp64 x)) * ulp64 x"
    by simp
  then show ?thesis
    using False by (auto simp: rnd64_def Let_def)
qed

lemma rnd64_power_of_two:
  assumes "- 1074 \<le> j" "j \<le> 1023"
  shows "rnd64 (2 powr of_int j) = Fin (2 powr of_int j)"
proof -
  let ?x = "2 powr of_int j :: real"
  define e where "e = max j (- 1022)"
  define k where "k = j - e + 52"
  have k0: "0 \<le> k" using assms by (auto simp: k_def e_def)
  have u: "ulp64 ?x = 2 powr (of_int e - 52)"
    by (simp add: ulp64_def e_def)
  have "?x / ulp64 ?x = 2 powr (of_int j - (of_int e - 52))"
    unfolding u by (simp add: powr_diff)
  also have "of_int j - (of_int e - 52) = (of_int k :: real)"
    by (simp add: k_def)
  finally have q: "?x / ulp64 ?x = of_int (2 ^ nat k)"
    using k0 by (simp only: powr_int_nat)
  have "of_int (round_half_even (?x / ulp64 ?x)) * ulp64 ?x = (?x / ulp64 ?x) * ulp64 ?x"
    unfolding q by simp
  also have "\<dots> = ?x" by simp
  finally have r: "of_int (round_half_even (?x / ulp64 ?x)) * ulp64 ?x = ?x" .
  have lt: "?x < 2 ^ 1024"
    using assms(2) by (rule powr_below_overflow)
  have "- (2 ^ 1024) < ?x"
    by (rule less_trans [of _ 0]) simp_all
  with lt show ?thesis
    by (simp add: rnd64_def Let_def r)
qed

lemma rnd64_tie_to_zero: "rnd64 (2 powr (- 1075)) = Fin 0"
proof -
  let ?x = "2 powr (- 1075) :: real"
  have "\<lfloor>log 2 \<bar>?x\<bar>\<rfloor> = - 1075"
    using floor_log2_powr [of "- 1075"] by simp
  then have u: "ulp64 ?x = 2 powr (- 1074)"
    by (simp add: ulp64_def)
  have "?x / ulp64 ?x = 2 powr (- 1075 - (- 1074))"
    unfolding u by (rule powr_diff [symmetric])
  then have "?x / ulp64 ?x = 1 / 2"
    by (simp add: powr_minus)
  then show ?thesis
    by (simp add: rnd64_def Let_def)
qed

lemma rnd64_lower:
  assumes "- 1022 \<le> j" and "2 powr of_int j \<le> x"
  shows "rnd64 x = PInf \<or> (\<exists>r. rnd64 x = Fin r \<and> 2 powr of_int j \<le> r)"
proof -
  have x: "0 < x" using assms(2) by (rule less_le_trans [rotated]) simp
  define e where "e = \<lfloor>log 2 \<bar>x\<bar>\<rfloor>"
  have "of_int j \<le> log 2 x"
    using assms(2) x by (simp add: le_log_iff)
  then have je: "j \<le> e" using x by (simp add: e_def le_floor_iff)
  then have m: "max e (- 1022) = e" using assms(1) by simp
  have u: "ulp64 x = 2 powr (of_int e - 52)"
    by (simp add: ulp64_def e_def [symmetric] m)
  have "of_int e \<le> log 2 x" using x by (simp add: e_def)
  then have ex: "2 powr of_int e \<le> x" using x by (simp add: le_log_iff)
  have "of_int (2 ^ 52 :: int) = 2 powr of_int e / ulp64 x"
    unfolding u by (simp add: powr_diff powr_int_nat [of 52, simplified])
  also have "\<dots> \<le> x / ulp64 x"
    using ex by (simp add: divide_right_mono)
  finally have "2 ^ 52 \<le> round_half_even (x / ulp64 x)"
    by (rule round_half_even_ge)
  then have "(of_int (2 ^ 52 :: int) :: real) \<le> of_int (round_half_even (x / ulp64 x))"
    by (simp only: of_int_le_iff)
  then have "of_int (2 ^ 52 :: int) * ulp64 x \<le> of_int (round_half_even (x / ulp64 x)) * ulp64 x"
    using ulp64_ge0 by (rule mult_right_mono)
  moreover have "of_int (2 ^ 52 :: int) * ulp64 x = 2 powr of_int e"
    unfolding u by (simp add: powr_diff powr_int_nat [of 52, simplified])
  moreover have "2 powr of_int j \<le> (2::real) powr of_int e"
    using je by simp
  ultimately have r: "2 powr of_int j \<le> of_int (round_half_even (x / ulp64 x)) * ulp64 x"
    by linarith
  have "(0::real) < 2 powr of_int j" by simp
  with r have "\<not> of_int (round_half_even (x / ulp64 x)) * ulp64 x \<le> - (2 ^ 1024)"
    by (smt (verit) zero_less_power)
  with r x show ?thesis
    by (auto simp: rnd64_def Let_def)
qed

lemma rnd64_upper:
  assumes "- 1022 \<le> j" and "j \<le> 1023" and "0 < x" and "x \<le> 2 powr of_int j"
  shows "\<exists>r. rnd64 x = Fin r \<and> 0 \<le> r \<and> r \<le> 2 powr of_int j"
proof -
  define e where "e = max \<lfloor>log 2 \<bar>x\<bar>\<rfloor> (- 1022)"
  define k where "k = j - e + 52"
  have "log 2 x \<le> of_int j"
    using assms(3,4) by (simp add: log_le_iff)
  then have "\<lfloor>log 2 \<bar>x\<bar>\<rfloor> \<le> j"
    using assms(3) by (simp add: floor_le_iff)
  then have ej: "e \<le> j" using assms(1) by (simp add: e_def)
  then have k0: "0 \<le> k" by (simp add: k_def)
  have u: "ulp64 x = 2 powr (of_int e - 52)"
    by (simp add: ulp64_def e_def)
  have "2 powr of_int j / ulp64 x = 2 powr (of_int j - (of_int e - 52))"
    unfolding u by (rule powr_diff [symmetric])
  also have "of_int j - (of_int e - 52) = (of_int k :: real)"
    by (simp add: k_def)
  finally have q: "2 powr of_int j / ulp64 x = of_int (2 ^ nat k)"
    using k0 by (simp only: powr_int_nat)
  have "x / ulp64 x \<le> 2 powr of_int j / ulp64 x"
    using assms(4) by (simp add: divide_right_mono)
  then have "round_half_even (x / ulp64 x) \<le> 2 ^ nat k"
    unfolding q by (rule round_half_even_le)
  then have "(of_int (round_half_even (x / ulp64 x)) :: real) \<le> of_int (2 ^ nat k)"
    by (simp only: of_int_le_iff)
  then have "of_int (round_half_even (x / ulp64 x)) * ulp64 x \<le> of_int (2 ^ nat k) * ulp64 x"
    using ulp64_ge0 by (rule mult_right_mono)
  also have "\<dots> = 2 powr of_int j"
    unfolding q [symmetric] by simp
  finally have hi: "of_int (round_half_even (x / ulp64 x)) * ulp64 x \<le> 2 powr of_int j" .
  have "0 \<le> x / ulp64 x" using assms(3) by simp
  then have "0 \<le> round_half_even (x / ulp64 x)"
    using round_half_even_ge [of 0] by simp
  then have lo: "0 \<le> of_int (round_half_even (x / ulp64 x)) * ulp64 x" by simp
  have "(2::real) powr of_int j < 2 ^ 1024"
    using assms(2) by (rule powr_below_overflow)
  with hi have "of_int (round_half_even (x / ulp64 x)) * ulp64 x < 2 ^ 1024"
    by (rule le_less_trans)
  with lo hi assms(3) show ?thesis
    by (auto simp: rnd64_def Let_def)
qed

lemma foldl_plus_sum_list: "foldl (\<lambda>s x. s + x) a xs = a + sum_list xs" for a :: npfloat
  by (induction xs arbitrary: a) (simp_all add: add.assoc)

lemma sum_r_exact: "sum_r (\<lambda>x. x) xs = sum_list xs"
  by (simp add: sum_r_def foldl_plus_sum_list)

lemma get_perplexity_r_exact: "get_perplexity_r (\<lambda>x. x) D b = get_perplexity D b"
  by (simp add: get_perplexity_r_def get_perplexity_def sum_r_exact)

lemma calib_init_r_exact: "calib_init_r (\<lambda>x. x) Di logU = calib_init Di logU"
  by (simp add: calib_init_r_def calib_init_def get_perplexity_r_exact)

lemma loop_body_r_exact: "loop_body_r (\<lambda>x. x) Di logU st = loop_body Di logU st"
  by (simp add: loop_body_r_def loop_body_def get_perplexity_r_exact)

lemma calibrate_loop_r_exact:
  "calibrate_loop_r (\<lambda>x. x) Di logU e st = calibrate_loop Di logU e st"
proof (induction Di logU e st rule: calibrate_loop.induct)
  case (1 Di logU e st)
  show ?case
  proof (cases "loop_cond e st")
    case True
    then show ?thesis
      using "1.IH"
      by (subst calibrate_loop_r.simps, subst calibrate_loop.simps) (simp add: loop_body_r_exact)
  next
    case False
    then show ?thesis
      by (subst calibrate_loop_r.simps, subst calibrate_loop.simps) simp
  qed
qed

lemma calibrate_r_exact: "calibrate_r (\<lambda>x. x) Di logU e = calibrate Di logU e"
  by (simp add: calibrate_r_def calibrate_def calibrate_loop_r_exact calib_init_r_exact)

lemma nonneg_cases:
  "nonneg x \<Longrightarrow> (x = PInf \<Longrightarrow> thesis) \<Longrightarrow> (\<And>a. x = Fin a \<Longrightarrow> 0 \<le> a \<Longrightarrow> thesis) \<Longrightarrow> thesis"
  by (cases x) (auto simp: nonneg_def)

lemma nonneg_simps [simp]:
  "nonneg (Fin a) = (0 \<le> a)" "nonneg PInf" "\<not> nonneg NInf" "\<not> nonneg NaN"
  by (simp_all add: nonneg_def)

lemma nonneg_rnd64: "0 \<le> x \<Longrightarrow> nonneg (rnd64 x)"
  using rnd64_nonneg [of x] by auto

lemma nonneg_r64: "nonneg x \<Longrightarrow> nonneg (r64 x)"
  by (cases x) (simp_all add: nonneg_rnd64)

lemma nonneg_divide: "nonneg x \<Longrightarrow> 0 < c \<Longrightarrow> nonneg (x / Fin c)"
  by (cases x) simp_all

lemma nonneg_times: "nonneg x \<Longrightarrow> 0 < c \<Longrightarrow> nonneg (x * Fin c)"
  by (cases x) simp_all

lemma nonneg_plus: "nonneg x \<Longrightarrow> nonneg y \<Longrightarrow> nonneg (x + y)"
  by (cases x; cases y) simp_all

lemma bounds_inv_r_init: "bounds_inv_r (calib_init_r rd Di logU)"
  by (simp add: bounds_inv_r_def calib_init_r_def Let_def split: prod.splits)

lemma bounds_inv_r_step:
  assumes "bounds_inv_r st"
  shows "bounds_inv_r (loop_body_r r64 Di logU st)"
proof -
  from assms have b: "nonneg (beta st)" and mx: "nonneg (betamax st)"
    and mn: "betamin st = NInf \<or> nonneg (betamin st)"
    by (simp_all add: bounds_inv_r_def)
  have 1: "nonneg (r64 (beta st / Fin 10))" "nonneg (r64 (beta st / Fin 2))"
    "nonneg (r64 (beta st * Fin 2))"
    using b by (simp_all add: nonneg_r64 nonneg_divide nonneg_times)
  have 2: "nonneg (r64 (r64 (beta st + betamax st) / Fin 2))"
    using b mx by (simp add: nonneg_r64 nonneg_divide nonneg_plus)
  have 3: "nonneg (r64 (r64 (beta st + betamin st) / Fin 2))"
    if "\<not> (feq (betamin st) PInf \<or> feq (betamin st) NInf)"
  proof -
    from that mn have "nonneg (betamin st)" by auto
    with b show ?thesis by (simp add: nonneg_r64 nonneg_divide nonneg_plus)
  qed
  show ?thesis
    using b mx mn 1 2 3
    by (auto simp: bounds_inv_r_def loop_body_r_def Let_def split: prod.splits)
qed

lemma reach_r_bounds_inv: "reach_r r64 Di logU e st \<Longrightarrow> bounds_inv_r st"
  by (induction rule: reach_r.induct) (simp_all add: bounds_inv_r_init bounds_inv_r_step)

lemma calibrate_loop_r_rule:
  assumes "P st"
    and "\<And>s. P s \<Longrightarrow> loop_cond e s \<Longrightarrow> P (loop_body_r rd Di logU s)"
  shows "P (calibrate_loop_r rd Di logU e st)"
  using assms
proof (induction rd Di logU e st rule: calibrate_loop_r.induct)
  case (1 rd Di logU e st)
  show ?case
  proof (cases "loop_cond e st")
    case True
    have "P (loop_body_r rd Di logU st)"
      using "1.prems" True by blast
    then have "P (calibrate_loop_r rd Di logU e (loop_body_r rd Di logU st))"
      using "1.IH" [OF True] "1.prems"(2) by blast
    moreover have "calibrate_loop_r rd Di logU e st
        = calibrate_loop_r rd Di logU e (loop_body_r rd Di logU st)"
      using True by (subst calibrate_loop_r.simps) simp
    ultimately show ?thesis by simp
  next
    case False
    then have "calibrate_loop_r rd Di logU e st = st"
      by (subst calibrate_loop_r.simps) simp
    with "1.prems"(1) show ?thesis by simp
  qed
qed

lemma reach_r_calibrate: "reach_r rd Di logU e (calibrate_r rd Di logU e)"
  unfolding calibrate_r_def
  by (rule calibrate_loop_r_rule [where P = "reach_r rd Di logU e", OF reach_r_init reach_r_step])

lemma rnd64_zero [simp]: "rnd64 0 = Fin 0"
  by (simp add: rnd64_def)

lemma rnd64_one [simp]: "rnd64 1 = Fin 1"
  using rnd64_power_of_two [of 0] by simp

lemma inverse_power_powr: "1 / 2 ^ n = (2::real) powr of_int (- int n)"
  by (simp add: powr_minus powr_realpow inverse_eq_divide)

lemma rnd64_halved: "rnd64 (halved k / 2) = Fin (halved (Suc k))"
proof -
  consider "Suc k \<le> 1074" | "k = 1074" | "1074 < k" by linarith
  then show ?thesis
  proof cases
    case 1
    have "halved k / 2 = 1 / 2 ^ Suc k"
      using 1 by (simp add: halved_def)
    also have "\<dots> = 2 powr of_int (- int (Suc k))"
      by (rule inverse_power_powr)
    finally have "rnd64 (halved k / 2) = Fin (2 powr of_int (- int (Suc k)))"
      using 1 by (simp only: rnd64_power_of_two)
    also have "2 powr of_int (- int (Suc k)) = halved (Suc k)"
      using 1 inverse_power_powr [of "Suc k"] by (simp only: halved_def if_True)
    finally show ?thesis .
  next
    case 2
    have le: "k \<le> 1074" using 2 by simp
    have "halved k / 2 = 1 / 2 ^ Suc k"
      using le by (simp add: halved_def)
    also have "\<dots> = 2 powr of_int (- int (Suc k))"
      by (rule inverse_power_powr)
    also have "- int (Suc k) = - 1075" using 2 by simp
    finally have "rnd64 (halved k / 2) = Fin 0"
      by (simp add: rnd64_tie_to_zero)
    moreover have "halved (Suc k) = 0"
      using 2 by (simp add: halved_def)
    ultimately show ?thesis by simp
  next
    case 3
    then show ?thesis by (simp add: halved_def)
  qed
qed

lemma get_perplexity_r_zero: "get_perplexity_r r64 [Fin 0] (Fin b) = (Fin 0, [Fin 1])"
  by (simp add: get_perplexity_r_def sum_r_def Let_def zero_npfloat_def)

lemma ln_default_perplexity: "1 \<le> ln (9 / 2 :: real)" "ln (9 / 2 :: real) \<le> 4"
proof -
  have "exp (1::real) \<le> 3" by (rule exp_le)
  then have "exp (1::real) \<le> 9 / 2" by simp
  then have "ln (exp (1::real)) \<le> ln (9 / 2)"
    by (subst ln_le_cancel_iff) simp_all
  then show "1 \<le> ln (9 / 2 :: real)" by simp
  have "ln (9 / 2 :: real) \<le> 9 / 2 - 1"
    by (rule ln_le_minus_one) simp
  then show "ln (9 / 2 :: real) \<le> 4" by simp
qed

lemma logU_default:
  "\<exists>l. logU_default = Fin l \<and> 1 \<le> l \<and> l \<le> 4"
proof -
  let ?x = "ln (9 / 2 :: real)"
  have pos: "0 < ?x" using ln_default_perplexity(1) by linarith
  have "?x \<le> 2 powr of_int 2" using ln_default_perplexity(2) by simp
  with pos obtain r where r: "rnd64 ?x = Fin r" "r \<le> 2 powr of_int 2"
    using rnd64_upper [of 2 ?x] by auto
  have "2 powr of_int 0 \<le> ?x" using ln_default_perplexity(1) by simp
  then have "2 powr of_int 0 \<le> r"
    using rnd64_lower [of 0 ?x] r(1) by auto
  with r show ?thesis by (simp add: logU_default_def)
qed

lemma Hdiff_default:
  "\<exists>h. r64 (Fin 0 - logU_default) = Fin h \<and> h \<le> - 1"
proof -
  from logU_default obtain l where l: "logU_default = Fin l" "1 \<le> l" "l \<le> 4"
    by blast
  have "l \<le> 2 powr of_int 2" using l(3) by simp
  with l(2) obtain r where r: "rnd64 l = Fin r"
    using rnd64_upper [of 2 l] by auto
  have "2 powr of_int 0 \<le> l" using l(2) by simp
  then have "1 \<le> r"
    using rnd64_lower [of 0 l] r by auto
  moreover have "r64 (Fin 0 - Fin l) = Fin (- r)"
    using rnd64_uminus [of l] r by (simp add: minus_npfloat_def)
  ultimately show ?thesis
    unfolding l(1) by auto
qed

lemma eps_default:
  "\<exists>t. eps_default = Fin t \<and> 0 \<le> t \<and> t \<le> 1 / 2"
proof -
  have "(1 / 100000 :: real) \<le> 2 powr of_int (- 1)"
    by (simp add: powr_minus)
  then show ?thesis
    using rnd64_upper [of "- 1" "1 / 100000"] by (simp add: powr_minus eps_default_def)
qed

lemma loop_cond_underflow:
  "loop_cond eps_default (underflow_state k) = (k < 5000)"
proof -
  from Hdiff_default obtain h where h: "r64 (Fin 0 - logU_default) = Fin h" "h \<le> - 1"
    by blast
  from eps_default obtain t where t: "eps_default = Fin t" "t \<le> 1 / 2"
    by blast
  have "t < \<bar>h\<bar>" using h(2) t(2) by linarith
  then show ?thesis
    by (simp add: loop_cond_def underflow_state_def h(1) t(1))
qed

lemma calib_init_r_underflow:
  "calib_init_r r64 [Fin 0] logU_default = underflow_state 0"
  by (simp add: calib_init_r_def get_perplexity_r_zero underflow_state_def halved_def)

lemma loop_body_r_underflow:
  "loop_body_r r64 [Fin 0] logU_default (underflow_state k) = underflow_state (Suc k)"
proof -
  from Hdiff_default obtain h where h: "r64 (Fin 0 - logU_default) = Fin h" "h \<le> - 1"
    by blast
  have neg: "\<not> 0 < h" using h(2) by linarith
  have st: "Hdiff (underflow_state k) = Fin h" "beta (underflow_state k) = Fin (halved k)"
    "betamin (underflow_state k) = NInf" "tries (underflow_state k) = k"
    by (simp_all add: underflow_state_def h(1))
  show ?thesis
    unfolding loop_body_r_def st
    using neg
    by (simp add: get_perplexity_r_zero rnd64_halved underflow_state_def h(1))
qed

lemma calibrate_loop_r_underflow:
  "k \<le> 5000 \<Longrightarrow>
   calibrate_loop_r r64 [Fin 0] logU_default eps_default (underflow_state k) = underflow_state 5000"
proof (induction "5000 - k" arbitrary: k)
  case 0
  then have "k = 5000" by simp
  then show ?case
    by (subst calibrate_loop_r.simps) (simp add: loop_cond_underflow)
next
  case (Suc m)
  then have k: "k < 5000" by simp
  have "calibrate_loop_r r64 [Fin 0] logU_default eps_default (underflow_state k)
      = calibrate_loop_r r64 [Fin 0] logU_default eps_default (underflow_state (Suc k))"
    using k
    by (subst calibrate_loop_r.simps) (simp only: loop_cond_underflow loop_body_r_underflow if_True)
  also have "\<dots> = underflow_state 5000"
    using Suc k by (intro Suc.hyps(1)) simp_all
  finally show ?case .
qed

lemma calibrate_r_underflow:
  "calibrate_r r64 [Fin 0] logU_default eps_default = underflow_state 5000"
  unfolding calibrate_r_def calib_init_r_underflow
  by (rule calibrate_loop_r_underflow) simp

text \<open>
  C9, as stated, fails: in float64 the precision does not stay strictly positive. For two equal
  points and the default detector (perplexity 4.5, tolerance 1e-5) the calibration takes its
  5000 turns, every one of them halves the precision, and the precision it ends with is 0.
\<close>

theorem beta_underflow_counterexample:
  "reach_r r64 [Fin 0] (r64 (flog (Fin (9 / 2)))) (r64 (Fin (1 / 100000)))
     (calibrate_r r64 [Fin 0] (r64 (flog (Fin (9 / 2)))) (r64 (Fin (1 / 100000))))
   \<and> tries (calibrate_r r64 [Fin 0] (r64 (flog (Fin (9 / 2)))) (r64 (Fin (1 / 100000)))) = 5000
   \<and> beta (calibrate_r r64 [Fin 0] (r64 (flog (Fin (9 / 2)))) (r64 (Fin (1 / 100000)))) = Fin 0"
proof -
  have "reach_r r64 [Fin 0] logU_default eps_default (calibrate_r r64 [Fin 0] logU_default eps_default)"
    by (rule reach_r_calibrate)
  moreover have "tries (calibrate_r r64 [Fin 0] logU_default eps_default) = 5000"
    by (simp add: calibrate_r_underflow underflow_state_def)
  moreover have "beta (calibrate_r r64 [Fin 0] logU_default eps_default) = Fin 0"
    by (simp add: calibrate_r_underflow underflow_state_def halved_def)
  ultimately show ?thesis
    unfolding logU_default_def eps_default_def by blast
qed

text \<open>
  C9, amended. In float64 the precision of a row starts at 1 and is, in every state of the
  calibration and in the returned one, for every row, perplexity and tolerance, neither
  negative nor nan: a double that is not negative, or \<open>+inf\<close>. Every bound is still infinite
  or such a value. The precision can be 0.
\<close>

theorem beta_never_negative:
  assumes "reach_r r64 Di logU e st"
  shows "beta (calib_init_r r64 Di logU) = Fin 1
     \<and> (beta st = PInf \<or> (\<exists>b. beta st = Fin b \<and> 0 \<le> b))
     \<and> (betamin st = NInf \<or> betamin st = PInf \<or> (\<exists>m. betamin st = Fin m \<and> 0 \<le> m))
     \<and> (betamax st = PInf \<or> (\<exists>m. betamax st = Fin m \<and> 0 \<le> m))
     \<and> (beta (calibrate_r r64 Di logU e) = PInf
          \<or> (\<exists>b. beta (calibrate_r r64 Di logU e) = Fin b \<and> 0 \<le> b))"
proof -
  have "bounds_inv_r st" using assms by (rule reach_r_bounds_inv)
  moreover have "bounds_inv_r (calibrate_r r64 Di logU e)"
    using reach_r_calibrate by (rule reach_r_bounds_inv)
  moreover have "beta (calib_init_r r64 Di logU) = Fin 1"
    by (simp add: calib_init_r_def Let_def split: prod.splits)
  ultimately show ?thesis
    unfolding bounds_inv_r_def by (auto elim!: nonneg_cases)
qed

theorem beta_never_negative_witness:
  "reach_r r64 [Fin 0] (r64 (flog (Fin (9 / 2)))) (r64 (Fin (1 / 100000)))
     (loop_body_r r64 [Fin 0] (r64 (flog (Fin (9 / 2))))
        (calib_init_r r64 [Fin 0] (r64 (flog (Fin (9 / 2))))))
   \<and> beta (loop_body_r r64 [Fin 0] (r64 (flog (Fin (9 / 2))))
        (calib_init_r r64 [Fin 0] (r64 (flog (Fin (9 / 2)))))) = Fin (1 / 2)
   \<and> (beta (calibrate_r r64 [Fin 0] (r64 (flog (Fin (9 / 2)))) (r64 (Fin (1 / 100000)))) = PInf
        \<or> (\<exists>b. beta (calibrate_r r64 [Fin 0] (r64 (flog (Fin (9 / 2)))) (r64 (Fin (1 / 100000))))
               = Fin b \<and> 0 \<le> b))"
proof -
  have c: "loop_cond eps_default (calib_init_r r64 [Fin 0] logU_default)"
    by (simp add: calib_init_r_underflow loop_cond_underflow)
  have r: "reach_r r64 [Fin 0] logU_default eps_default
      (loop_body_r r64 [Fin 0] logU_default (calib_init_r r64 [Fin 0] logU_default))"
    using reach_r_init c by (rule reach_r_step)
  have b: "beta (loop_body_r r64 [Fin 0] logU_default (calib_init_r r64 [Fin 0] logU_default))
      = Fin (1 / 2)"
    by (simp only: calib_init_r_underflow loop_body_r_underflow)
       (simp add: underflow_state_def halved_def)
  from beta_never_negative [OF r] r b show ?thesis
    unfolding logU_default_def eps_default_def by blast
qed

end
